theory Spec2Isabelle
  imports Complex_Main "HOL-Library.Multiset"
begin

section \<open>Errors\<close>

text \<open>
  Every way in which \<^verbatim>\<open>inference.py\<close> can raise is a value of this type.
  \<^item> \<open>ModelError\<close>: the forward pass of the (external) model raised.
  \<^item> \<open>IndexError\<close>: \<^verbatim>\<open>outputs["logits"][:, -1, :]\<close> on a sequence axis of size 0.
  \<^item> \<open>ArgmaxEmpty\<close>: \<^verbatim>\<open>torch.argmax\<close> over a vocabulary axis of size 0.
  \<^item> \<open>SamplingError\<close>: the truncated probabilities sum to zero, so the in-place division
    yields non-finite weights, which \<^verbatim>\<open>torch.multinomial\<close> rejects.
  \<^item> \<open>MultinomialInvalid\<close>: \<^verbatim>\<open>torch.multinomial\<close> was handed a negative or a
    non-finite weight.
  \<^item> \<open>CatEmpty\<close>: \<^verbatim>\<open>torch.cat\<close> was handed an empty list of tensors.
\<close>

datatype error =
    ModelError
  | IndexError
  | ArgmaxEmpty
  | SamplingError
  | MultinomialInvalid
  | CatEmpty

section \<open>Tensor primitives\<close>

text \<open>
  The batch axis has size one throughout (\<^verbatim>\<open>prompts = [prompt]\<close>), so a tensor of shape
  \<open>(1, n)\<close> is a list of length \<open>n\<close>. Scores and probabilities are real numbers: the
  development is about exact arithmetic, not about rounding.
\<close>

text \<open>
  \<^verbatim>\<open>torch.argmax(xs, dim=-1)\<close>: a left-to-right scan that keeps the running best
  position and replaces it only by a strictly larger entry.
\<close>

fun argmax_scan :: "real list \<Rightarrow> nat \<Rightarrow> nat \<Rightarrow> real \<Rightarrow> nat" where
  "argmax_scan [] i best v = best"
| "argmax_scan (x # xs) i best v =
     (if v < x then argmax_scan xs (Suc i) i x else argmax_scan xs (Suc i) best v)"

text \<open>
  What the greedy strategy is to return: position \<open>i\<close> holds a maximum of \<open>xs\<close> and
  every earlier position holds a strictly smaller value.
\<close>

definition is_first_max :: "real list \<Rightarrow> nat \<Rightarrow> bool" where
  "is_first_max xs i \<longleftrightarrow>
     i < length xs \<and> (\<forall>j < length xs. xs ! j \<le> xs ! i) \<and> (\<forall>j < i. xs ! j < xs ! i)"

definition argmax :: "real list \<Rightarrow> error + nat" where
  "argmax xs = (case xs of [] \<Rightarrow> Inl ArgmaxEmpty | x # rest \<Rightarrow> Inr (argmax_scan rest 1 0 x))"

text \<open>\<^verbatim>\<open>torch.softmax(xs, dim=-1)\<close>.\<close>

definition softmax :: "real list \<Rightarrow> real list" where
  "softmax xs = map (\<lambda>x. exp x / sum_list (map exp xs)) xs"

text \<open>
  \<^verbatim>\<open>torch.sort(probs, dim=-1, descending=True)\<close>: the entries in descending order and,
  beside them, the position each one came from. Equal entries keep their original order
  here; PyTorch leaves their order open, and no result below depends on it.
\<close>

definition torch_sort_desc :: "real list \<Rightarrow> real list \<times> nat list" where
  "torch_sort_desc probs =
     (let ps = sort_key (\<lambda>(v, i). - v) (zip probs [0..<length probs])
      in (map fst ps, map snd ps))"

text \<open>\<^verbatim>\<open>torch.cumsum(xs, dim=-1)\<close>: the running sums.\<close>

fun cumsum_from :: "real \<Rightarrow> real list \<Rightarrow> real list" where
  "cumsum_from a [] = []"
| "cumsum_from a (x # xs) = (a + x) # cumsum_from (a + x) xs"

definition cumsum :: "real list \<Rightarrow> real list" where
  "cumsum xs = cumsum_from 0 xs"

text \<open>
  \<^verbatim>\<open>torch.multinomial(ws, num_samples=1)\<close> draws one position at random, a position of
  weight zero never. The random generator is a state \<open>'g\<close> and a function \<open>draw\<close> that
  maps the generator and the weights to the drawn position and the next generator;
  \<open>draw_ok\<close> is the contract of the library's draw. Weights that are not a distribution
  are rejected before anything is drawn.
\<close>

type_synonym 'g draw = "'g \<Rightarrow> real list \<Rightarrow> nat \<times> 'g"

definition draw_ok :: "'g draw \<Rightarrow> bool" where
  "draw_ok draw \<longleftrightarrow>
     (\<forall>g ws. (\<forall>w \<in> set ws. 0 \<le> w) \<and> 0 < sum_list ws \<longrightarrow>
        fst (draw g ws) < length ws \<and> 0 < ws ! fst (draw g ws))"

definition multinomial :: "'g draw \<Rightarrow> 'g \<Rightarrow> real list \<Rightarrow> error + nat \<times> 'g" where
  "multinomial draw g ws =
     (if \<exists>w \<in> set ws. w < 0 then Inl MultinomialInvalid
      else if sum_list ws \<le> 0 then Inl SamplingError
      else Inr (draw g ws))"

section \<open>Nucleus sampling\<close>

text \<open>
  The first five lines of \<^verbatim>\<open>_sample_top_p\<close>: sort, running sums, the mask of the
  entries whose running sum without their own probability exceeds \<open>p\<close>, and the masked
  entries set to zero. The arithmetic of this section is exact; the section on rounded
  arithmetic below gives the same lines over an arithmetic that rounds.
\<close>

definition top_p_mask :: "real list \<Rightarrow> real \<Rightarrow> bool list" where
  "top_p_mask probs_sort p = map2 (\<lambda>s x. s - x > p) (cumsum probs_sort) probs_sort"

definition top_p_truncate :: "real list \<Rightarrow> real \<Rightarrow> real list" where
  "top_p_truncate probs_sort p =
     map2 (\<lambda>m x. if m then 0 else x) (top_p_mask probs_sort p) probs_sort"

text \<open>
  The in-place division by the sum. A sum of zero makes every quotient non-finite, which
  the draw rejects; in the model that is \<open>SamplingError\<close>, raised here.
\<close>

definition renormalize :: "real list \<Rightarrow> error + real list" where
  "renormalize ws =
     (let total = sum_list ws
      in if total = 0 then Inl SamplingError else Inr (map (\<lambda>x. x / total) ws))"

text \<open>The distribution the draw is made from, in sorted order.\<close>

definition top_p_weights :: "real list \<Rightarrow> real \<Rightarrow> error + real list" where
  "top_p_weights probs p = renormalize (top_p_truncate (fst (torch_sort_desc probs)) p)"

definition sample_top_p :: "'g draw \<Rightarrow> 'g \<Rightarrow> real list \<Rightarrow> real \<Rightarrow> error + nat \<times> 'g" where
  "sample_top_p draw g probs p =
     (let (probs_sort, probs_idx) = torch_sort_desc probs
      in case renormalize (top_p_truncate probs_sort p) of
           Inl e \<Rightarrow> Inl e
         | Inr ws \<Rightarrow>
             (case multinomial draw g ws of
                Inl e \<Rightarrow> Inl e
              | Inr (next_token, g') \<Rightarrow> Inr (probs_idx ! next_token, g')))"

section \<open>The decode loop\<close>

text \<open>
  \<^verbatim>\<open>model_inputs\<close> is the dictionary the processor returns; \<open>'p\<close> is the type of the
  pixel values, which the loop only hands on.
\<close>

record 'p model_inputs =
  input_ids :: "nat list"
  attention_mask :: "int list"
  pixel_values :: 'p

text \<open>
  \<^verbatim>\<open>outputs\<close> of one forward pass: \<^verbatim>\<open>outputs["logits"]\<close>, one score vector per input
  position, and \<^verbatim>\<open>outputs["kv_cache"]\<close>; \<open>'c\<close> is the type of the cache.
\<close>

record 'c model_outputs =
  logits :: "real list list"
  out_kv_cache :: 'c

text \<open>
  Everything \<^verbatim>\<open>test_inference\<close> is given or reaches for: the model and the processor with
  its tokenizer (both defined outside this file, so they are parameters), the sampling
  arguments, and the library calls whose result the code does not determine
  (\<^verbatim>\<open>Image.open\<close>, \<^verbatim>\<open>KVCache()\<close>, the draw of \<^verbatim>\<open>torch.multinomial\<close>). The forward pass
  may raise. Moving tensors to a device does not change their values, so
  \<^verbatim>\<open>move_inputs_to_device\<close> and the \<^verbatim>\<open>device\<close> argument have no counterpart.
\<close>

record ('i, 'p, 'c, 'g) inference_env =
  model :: "nat list \<Rightarrow> 'p \<Rightarrow> int list \<Rightarrow> 'c \<Rightarrow> error + 'c model_outputs"
  processor :: "string list \<Rightarrow> 'i list \<Rightarrow> 'p model_inputs"
  eos_token_id :: nat
  tokenizer_decode :: "nat list \<Rightarrow> string"
  temperature :: real
  top_p :: real
  do_sample :: bool
  image_open :: "string \<Rightarrow> 'i"
  new_kv_cache :: 'c
  multinomial_draw :: "'g draw"

definition get_model_inputs :: "('i, 'p, 'c, 'g) inference_env \<Rightarrow> string \<Rightarrow> string \<Rightarrow> 'p model_inputs" where
  "get_model_inputs S prompt image_file_path =
     (let image = image_open S image_file_path;
          images = [image];
          prompts = [prompt]
      in processor S prompts images)"

text \<open>The variables the loop reads and writes, and the state of the random generator.\<close>

record ('p, 'c, 'g) decode_state = "'p model_inputs" +
  kv_cache :: 'c
  generated_tokens :: "nat list"
  rng :: 'g

text \<open>\<^verbatim>\<open>outputs["logits"][:, -1, :]\<close>: the score vector of the last position.\<close>

definition last_position :: "real list list \<Rightarrow> error + real list" where
  "last_position ls = (if ls = [] then Inl IndexError else Inr (last ls))"

text \<open>
  Lines 65 to 69: the next token from the scores. With \<^verbatim>\<open>do_sample\<close> the scores are
  divided by the temperature and passed through softmax and \<^verbatim>\<open>_sample_top_p\<close>; a
  temperature of zero makes every quotient non-finite, which the draw rejects. Without
  \<^verbatim>\<open>do_sample\<close> the token is the argmax, and the generator is not touched.
\<close>

definition select_next_token ::
  "('i, 'p, 'c, 'g) inference_env \<Rightarrow> 'g \<Rightarrow> real list \<Rightarrow> error + nat \<times> 'g" where
  "select_next_token S g next_token_logits =
     (if do_sample S then
        (if temperature S = 0 then Inl MultinomialInvalid
         else sample_top_p (multinomial_draw S) g
                (softmax (map (\<lambda>x. x / temperature S) next_token_logits)) (top_p S))
      else (case argmax next_token_logits of
              Inl e \<Rightarrow> Inl e
            | Inr next_token \<Rightarrow> Inr (next_token, g)))"

text \<open>
  One pass through the body of the loop. The result says whether the pass ended in
  \<^verbatim>\<open>break\<close>, and gives the variables as the pass leaves them.
\<close>

definition decode_step ::
  "('i, 'p, 'c, 'g) inference_env \<Rightarrow> ('p, 'c, 'g) decode_state \<Rightarrow> error + bool \<times> ('p, 'c, 'g) decode_state" where
  "decode_step S st =
     (case model S (input_ids st) (pixel_values st) (attention_mask st) (kv_cache st) of
        Inl e \<Rightarrow> Inl e
      | Inr outputs \<Rightarrow>
          (case last_position (logits outputs) of
             Inl e \<Rightarrow> Inl e
           | Inr next_token_logits \<Rightarrow>
               (case select_next_token S (rng st) next_token_logits of
                  Inl e \<Rightarrow> Inl e
                | Inr (next_token, g') \<Rightarrow>
                    (let st1 = st\<lparr>kv_cache := out_kv_cache outputs,
                                  generated_tokens := generated_tokens st @ [next_token],
                                  rng := g'\<rparr>
                     in if next_token = eos_token_id S then Inr (True, st1)
                        else Inr (False, st1\<lparr>input_ids := [next_token],
                                             attention_mask := attention_mask st1 @ [1]\<rparr>)))))"

text \<open>
  \<^verbatim>\<open>for _ in range(n)\<close>: at most \<open>n\<close> passes, fewer after a \<^verbatim>\<open>break\<close>; an exception in a
  pass ends the loop with that exception.
\<close>

primrec decode_loop ::
  "('i, 'p, 'c, 'g) inference_env \<Rightarrow> nat \<Rightarrow> ('p, 'c, 'g) decode_state \<Rightarrow> error + ('p, 'c, 'g) decode_state" where
  "decode_loop S 0 st = Inr st"
| "decode_loop S (Suc n) st =
     (case decode_step S st of
        Inl e \<Rightarrow> Inl e
      | Inr (stop, st') \<Rightarrow> if stop then Inr st' else decode_loop S n st')"

text \<open>
  \<^verbatim>\<open>torch.cat(generated_tokens, dim=-1)\<close>: each element is a tensor holding one token; the
  library refuses an empty list.
\<close>

definition torch_cat :: "nat list \<Rightarrow> error + nat list" where
  "torch_cat ts = (if ts = [] then Inl CatEmpty else Inr ts)"

text \<open>The variables as the loop finds them: lines 43 to 51.\<close>

definition initial_state ::
  "('i, 'p, 'c, 'g) inference_env \<Rightarrow> string \<Rightarrow> string \<Rightarrow> 'g \<Rightarrow> ('p, 'c, 'g) decode_state" where
  "initial_state S prompt image_file_path g =
     (let model_inputs = get_model_inputs S prompt image_file_path
      in \<lparr>input_ids = input_ids model_inputs,
          attention_mask = attention_mask model_inputs,
          pixel_values = pixel_values model_inputs,
          kv_cache = new_kv_cache S,
          generated_tokens = [],
          rng = g\<rparr>)"

text \<open>
  \<^verbatim>\<open>test_inference\<close>. \<^verbatim>\<open>range\<close> of a negative number is empty, hence \<open>nat\<close>. The function
  prints and returns nothing; the model returns the concatenated tokens and the printed
  line, or the exception.
\<close>

definition test_inference ::
  "('i, 'p, 'c, 'g) inference_env \<Rightarrow> string \<Rightarrow> string \<Rightarrow> int \<Rightarrow> 'g \<Rightarrow> error + nat list \<times> string" where
  "test_inference S prompt image_file_path max_tokens_to_generate g =
     (case decode_loop S (nat max_tokens_to_generate) (initial_state S prompt image_file_path g) of
        Inl e \<Rightarrow> Inl e
      | Inr st \<Rightarrow>
          (case torch_cat (generated_tokens st) of
             Inl e \<Rightarrow> Inl e
           | Inr tokens \<Rightarrow> Inr (tokens, prompt @ tokenizer_decode S tokens)))"

section \<open>Conditions on the collaborators\<close>

text \<open>
  A forward pass that, given at least one input token, returns, with scores for at least
  one position over a vocabulary that is not empty.
\<close>

definition model_ok :: "('i, 'p, 'c, 'g) inference_env \<Rightarrow> bool" where
  "model_ok S \<longleftrightarrow>
     (\<forall>ids pix am kv. ids \<noteq> [] \<longrightarrow>
        (\<exists>out. model S ids pix am kv = Inr out \<and> logits out \<noteq> [] \<and> last (logits out) \<noteq> []))"

text \<open>The tokens a run has appended to \<^verbatim>\<open>generated_tokens\<close>.\<close>

definition new_tokens :: "('p, 'c, 'g) decode_state \<Rightarrow> ('p, 'c, 'g) decode_state \<Rightarrow> nat list" where
  "new_tokens st st' = drop (length (generated_tokens st)) (generated_tokens st')"

section \<open>A scripted run\<close>

text \<open>
  A draw that satisfies the library's contract: the generator is a counter, and the drawn
  position is the one the counter selects among the positions of positive weight.
\<close>

definition counter_draw :: "nat draw" where
  "counter_draw g ws =
     (let support = filter (\<lambda>r. 0 < ws ! r) [0..<length ws]
      in (support ! (g mod length support), Suc g))"

text \<open>
  A model over a vocabulary of four tokens whose cache is the number of positions it has
  seen. Its scores favour token 2 after two positions, token 1 after three, and token 3
  from then on.
\<close>

definition scripted_model :: "nat list \<Rightarrow> unit \<Rightarrow> int list \<Rightarrow> nat \<Rightarrow> error + nat model_outputs" where
  "scripted_model ids pix am kv =
     (let seen = kv + length ids;
          scores = (if seen = 2 then [0, 0, 5, 1] else if seen = 3 then [0, 5, 0, 1] else [0, 1, 0, 5])
      in Inr \<lparr>logits = replicate (length ids) scores, out_kv_cache = seen\<rparr>)"

text \<open>Greedy decoding of a prompt of two tokens with that model; token 3 ends a sequence.\<close>

definition scripted_env :: "(unit, unit, nat, nat) inference_env" where
  "scripted_env =
     \<lparr>model = scripted_model,
      processor = (\<lambda>prompts images. \<lparr>input_ids = [7, 8], attention_mask = [1, 1], pixel_values = ()\<rparr>),
      eos_token_id = 3,
      tokenizer_decode = (\<lambda>tokens. concat (map (\<lambda>t. if t = 3 then [] else ''x'') tokens)),
      temperature = 8 / 10,
      top_p = 9 / 10,
      do_sample = False,
      image_open = (\<lambda>path. ()),
      new_kv_cache = 0,
      multinomial_draw = counter_draw\<rparr>"

definition scripted_start :: "(unit, nat, nat) decode_state" where
  "scripted_start = initial_state scripted_env ''describe:'' ''image.png'' 0"

text \<open>The variables after the second and after the third pass of that run.\<close>

definition scripted_after_2 :: "(unit, nat, nat) decode_state" where
  "scripted_after_2 =
     \<lparr>input_ids = [1], attention_mask = [1, 1, 1, 1], pixel_values = (),
      kv_cache = 3, generated_tokens = [2, 1], rng = 0\<rparr>"

definition scripted_after_3 :: "(unit, nat, nat) decode_state" where
  "scripted_after_3 =
     \<lparr>input_ids = [1], attention_mask = [1, 1, 1, 1], pixel_values = (),
      kv_cache = 4, generated_tokens = [2, 1, 3], rng = 0\<rparr>"

section \<open>Nucleus sampling in rounded arithmetic\<close>

text \<open>
  The tensors hold 32-bit floating-point numbers: the running sums, the subtraction, the
  sum and the division of \<^verbatim>\<open>_sample_top_p\<close> each round their result, and the comparison
  sees \<^verbatim>\<open>p\<close> converted to the precision of the tensor. The record \<open>arith\<close> collects these
  operations of the tensor library; the definitions below are lines 94 to 99 with them.
  With the exact operations (\<open>exact_arith\<close>) they are the definitions of the section on
  nucleus sampling above.
\<close>

record arith =
  scalar_op :: "real \<Rightarrow> real"
  cumsum_op :: "real list \<Rightarrow> real list"
  sub_op :: "real \<Rightarrow> real \<Rightarrow> real"
  sum_op :: "real list \<Rightarrow> real"
  div_op :: "real \<Rightarrow> real \<Rightarrow> real"

definition top_p_mask_in :: "arith \<Rightarrow> real list \<Rightarrow> real \<Rightarrow> bool list" where
  "top_p_mask_in A probs_sort p =
     map2 (\<lambda>s x. sub_op A s x > scalar_op A p) (cumsum_op A probs_sort) probs_sort"

definition top_p_truncate_in :: "arith \<Rightarrow> real list \<Rightarrow> real \<Rightarrow> real list" where
  "top_p_truncate_in A probs_sort p =
     map2 (\<lambda>m x. if m then 0 else x) (top_p_mask_in A probs_sort p) probs_sort"

definition renormalize_in :: "arith \<Rightarrow> real list \<Rightarrow> error + real list" where
  "renormalize_in A ws =
     (let total = sum_op A ws
      in if total = 0 then Inl SamplingError else Inr (map (\<lambda>x. div_op A x total) ws))"

definition sample_top_p_in ::
  "arith \<Rightarrow> 'g draw \<Rightarrow> 'g \<Rightarrow> real list \<Rightarrow> real \<Rightarrow> error + nat \<times> 'g" where
  "sample_top_p_in A draw g probs p =
     (let (probs_sort, probs_idx) = torch_sort_desc probs
      in case renormalize_in A (top_p_truncate_in A probs_sort p) of
           Inl e \<Rightarrow> Inl e
         | Inr ws \<Rightarrow>
             (case multinomial draw g ws of
                Inl e \<Rightarrow> Inl e
              | Inr (next_token, g') \<Rightarrow> Inr (probs_idx ! next_token, g')))"

definition exact_arith :: arith where
  "exact_arith =
     \<lparr>scalar_op = (\<lambda>p. p), cumsum_op = cumsum, sub_op = (\<lambda>a b. a - b),
      sum_op = sum_list, div_op = (\<lambda>a b. a / b)\<rparr>"

text \<open>
  The contract of an arithmetic on vectors of at most \<open>n\<close> entries. One subtraction or
  division is off by at most the relative error \<open>u\<close>. The running sums and the sum of
  non-negative entries lose at most the relative error \<open>\<gamma>\<close>; the first running sum is the
  first entry itself.
\<close>

definition arith_ok :: "real \<Rightarrow> real \<Rightarrow> nat \<Rightarrow> arith \<Rightarrow> bool" where
  "arith_ok u \<gamma> n A \<longleftrightarrow>
     0 \<le> u \<and> u < 1 \<and> 0 \<le> \<gamma> \<and> \<gamma> < 1
     \<and> (\<forall>xs. length (cumsum_op A xs) = length xs)
     \<and> (\<forall>xs. xs \<noteq> [] \<longrightarrow> cumsum_op A xs ! 0 = xs ! 0)
     \<and> (\<forall>xs k. length xs \<le> n \<and> (\<forall>x \<in> set xs. 0 \<le> x) \<and> k < length xs \<longrightarrow>
            (1 - \<gamma>) * sum_list (take (Suc k) xs) \<le> cumsum_op A xs ! k)
     \<and> (\<forall>a b. \<bar>sub_op A a b - (a - b)\<bar> \<le> u * \<bar>a - b\<bar>)
     \<and> (\<forall>xs. length xs \<le> n \<and> (\<forall>x \<in> set xs. 0 \<le> x) \<longrightarrow>
            (1 - \<gamma>) * sum_list xs \<le> sum_op A xs)
     \<and> (\<forall>a b. \<bar>div_op A a b - a / b\<bar> \<le> u * \<bar>a / b\<bar>)"

text \<open>
  Rounding to the nearest 32-bit floating-point number, ties to even: 24 significant bits.
  The exponent range is unbounded here (no overflow, no subnormal numbers).
\<close>

definition round_even :: "real \<Rightarrow> int" where
  "round_even y =
     (let f = \<lfloor>y\<rfloor>; r = y - of_int f
      in if r < 1 / 2 then f else if 1 / 2 < r then f + 1 else if even f then f else f + 1)"

definition round_f32 :: "real \<Rightarrow> real" where
  "round_f32 x =
     (if x = 0 then 0
      else (let q = 2 powr of_int (\<lfloor>log 2 \<bar>x\<bar>\<rfloor> - 23)
            in of_int (round_even (x / q)) * q))"

definition unit_f32 :: real where
  "unit_f32 = 1 / 2 ^ 24"

text \<open>
  An arithmetic that rounds so after every operation, with running sums and sum taken from
  left to right. The library may accumulate in another order or in higher precision; this
  is one arithmetic that meets the contract.
\<close>

fun cumsum_f32_from :: "real \<Rightarrow> real list \<Rightarrow> real list" where
  "cumsum_f32_from a [] = []"
| "cumsum_f32_from a (x # xs) = round_f32 (a + x) # cumsum_f32_from (round_f32 (a + x)) xs"

definition cumsum_f32 :: "real list \<Rightarrow> real list" where
  "cumsum_f32 xs = (case xs of [] \<Rightarrow> [] | x # rest \<Rightarrow> x # cumsum_f32_from x rest)"

definition f32_arith :: arith where
  "f32_arith =
     \<lparr>scalar_op = round_f32, cumsum_op = cumsum_f32,
      sub_op = (\<lambda>a b. round_f32 (a - b)),
      sum_op = foldl (\<lambda>a x. round_f32 (a + x)) 0,
      div_op = (\<lambda>a b. round_f32 (a / b))\<rparr>"

text \<open>
  A distribution of four 32-bit floating-point numbers whose largest entry is just above
  the others.
\<close>

definition near_tie_probs :: "real list" where
  "near_tie_probs = [1 / 4 + 1 / 2 ^ 25, 1 / 4, 1 / 4, 1 / 4 - 1 / 2 ^ 25]"

section \<open>Sorting, running sums and truncation\<close>

lemma sort_pairs_props:
  fixes probs :: "real list"
  assumes "ps = sort_key (\<lambda>(v, i). - v) (zip probs [0..<length probs])"
  shows "length ps = length probs"
    and "mset (map snd ps) = mset [0..<length probs]"
    and "mset (map fst ps) = mset probs"
    and "\<forall>(v, i) \<in> set ps. i < length probs \<and> v = probs ! i"
    and "sorted (map uminus (map fst ps))"
proof -
  show "length ps = length probs" using assms by simp
  have m: "mset ps = mset (zip probs [0..<length probs])" using assms by simp
  have "mset (map snd ps) = mset (map snd (zip probs [0..<length probs]))"
    using m by (metis mset_map)
  then show "mset (map snd ps) = mset [0..<length probs]" by (simp only: map_snd_zip length_upt minus_nat.diff_0)
  have "mset (map fst ps) = mset (map fst (zip probs [0..<length probs]))"
    using m by (metis mset_map)
  then show "mset (map fst ps) = mset probs" by (simp only: map_fst_zip length_upt minus_nat.diff_0)
  have "set ps = set (zip probs [0..<length probs])" using assms by simp
  then show "\<forall>(v, i) \<in> set ps. i < length probs \<and> v = probs ! i"
    by (auto simp: set_zip)
  have "sorted (map (\<lambda>(v, i). - v) ps)" unfolding assms by (rule sorted_sort_key)
  moreover have "map (\<lambda>(v, i). - v) ps = map uminus (map fst ps)" by (simp add: case_prod_beta)
  ultimately show "sorted (map uminus (map fst ps))" by simp
qed

lemma sort_length:
  "length (fst (torch_sort_desc probs)) = length probs"
  "length (snd (torch_sort_desc probs)) = length probs"
  by (simp_all add: torch_sort_desc_def Let_def)

lemma sort_idx_mset: "mset (snd (torch_sort_desc probs)) = mset [0..<length probs]"
  using sort_pairs_props(2)[OF refl, of probs] by (simp add: torch_sort_desc_def Let_def)

lemma sort_vals_mset: "mset (fst (torch_sort_desc probs)) = mset probs"
  using sort_pairs_props(3)[OF refl, of probs] by (simp add: torch_sort_desc_def Let_def)

lemma sort_idx_set: "set (snd (torch_sort_desc probs)) = {0..<length probs}"
  using arg_cong[OF sort_idx_mset, of set_mset probs] by simp

lemma sort_idx_distinct: "distinct (snd (torch_sort_desc probs))"
  using sort_idx_mset[of probs] by (metis distinct_upt mset_eq_imp_distinct_iff)

lemma sort_idx_bound:
  assumes "r < length probs"
  shows "snd (torch_sort_desc probs) ! r < length probs"
proof -
  have "snd (torch_sort_desc probs) ! r \<in> set (snd (torch_sort_desc probs))"
    using assms by (simp add: sort_length)
  then show ?thesis by (simp add: sort_idx_set)
qed

lemma sort_gather:
  assumes "r < length probs"
  shows "fst (torch_sort_desc probs) ! r = probs ! (snd (torch_sort_desc probs) ! r)"
proof -
  define ps where "ps = sort_key (\<lambda>(v, i). - v) (zip probs [0..<length probs])"
  have len: "length ps = length probs" using sort_pairs_props(1)[OF ps_def] .
  have "ps ! r \<in> set ps" using assms len by simp
  with sort_pairs_props(4)[OF ps_def] have "fst (ps ! r) = probs ! snd (ps ! r)"
    by (auto simp: case_prod_beta)
  then show ?thesis using assms len by (simp add: torch_sort_desc_def Let_def ps_def[symmetric])
qed

lemma sort_descending:
  assumes "i \<le> j" "j < length probs"
  shows "fst (torch_sort_desc probs) ! j \<le> fst (torch_sort_desc probs) ! i"
proof -
  let ?s = "fst (torch_sort_desc probs)"
  have "sorted (map uminus ?s)"
    using sort_pairs_props(5)[OF refl, of probs] by (simp add: torch_sort_desc_def Let_def)
  moreover have "j < length (map uminus ?s)" using assms by (simp add: sort_length)
  ultimately have "map uminus ?s ! i \<le> map uminus ?s ! j"
    using assms(1) by (simp only: sorted_nth_mono)
  then show ?thesis using assms by (simp add: sort_length)
qed


lemma sort_set: "set (fst (torch_sort_desc probs)) = set probs"
  using arg_cong[OF sort_vals_mset, of set_mset probs] by simp

lemma sort_head_max:
  assumes "probs \<noteq> []"
  shows "fst (torch_sort_desc probs) ! 0 = Max (set probs)"
proof -
  let ?s = "fst (torch_sort_desc probs)"
  have n: "0 < length probs" using assms by simp
  have "?s ! 0 \<in> set ?s" using n by (simp add: sort_length)
  then have mem: "?s ! 0 \<in> set probs" by (simp add: sort_set)
  have "x \<le> ?s ! 0" if "x \<in> set probs" for x
  proof -
    from that have "x \<in> set ?s" by (simp add: sort_set)
    then obtain j where "j < length ?s" "?s ! j = x" by (auto simp: in_set_conv_nth)
    then show ?thesis using sort_descending[of 0 j probs] by (simp add: sort_length)
  qed
  then show ?thesis using mem by (intro Max_eqI[symmetric]) auto
qed

lemma cumsum_from_length: "length (cumsum_from a xs) = length xs"
  by (induction xs arbitrary: a) auto

lemma cumsum_from_nth: "i < length xs \<Longrightarrow> cumsum_from a xs ! i = a + sum_list (take (Suc i) xs)"
proof (induction xs arbitrary: a i)
  case Nil then show ?case by simp
next
  case (Cons x xs)
  then show ?case by (cases i) auto
qed

lemma cumsum_length: "length (cumsum xs) = length xs"
  by (simp add: cumsum_def cumsum_from_length)

lemma cumsum_nth: "i < length xs \<Longrightarrow> cumsum xs ! i = sum_list (take (Suc i) xs)"
  by (simp add: cumsum_def cumsum_from_nth)

lemma cumsum_excl: 
  assumes "i < length xs"
  shows "cumsum xs ! i - xs ! i = sum_list (take i xs)"
  using assms by (simp add: cumsum_nth take_Suc_conv_app_nth)

lemma top_p_truncate_length: "length (top_p_truncate xs p) = length xs"
  by (simp add: top_p_truncate_def top_p_mask_def cumsum_length)

lemma top_p_truncate_nth:
  assumes "i < length xs"
  shows "top_p_truncate xs p ! i = (if p < sum_list (take i xs) then 0 else xs ! i)"
  using assms cumsum_excl[OF assms] by (simp add: top_p_truncate_def top_p_mask_def cumsum_length)

section \<open>The argmax scan\<close>

lemma argmax_scan_first_max:
  assumes "is_first_max pre best" "v = pre ! best" "i = length pre"
  shows "is_first_max (pre @ xs) (argmax_scan xs i best v)"
  using assms
proof (induction xs arbitrary: pre i best v)
  case Nil
  then show ?case by simp
next
  case (Cons x xs)
  show ?case
  proof (cases "v < x")
    case True
    have "is_first_max (pre @ [x]) i"
      using Cons.prems True unfolding is_first_max_def
      by (auto simp: nth_append less_Suc_eq intro: less_imp_le order.strict_trans1 order_trans)
    then have "is_first_max ((pre @ [x]) @ xs) (argmax_scan xs (Suc i) i x)"
      by (rule Cons.IH) (use Cons.prems in \<open>simp_all add: nth_append\<close>)
    then show ?thesis using True by simp
  next
    case False
    have "is_first_max (pre @ [x]) best"
      using Cons.prems False unfolding is_first_max_def
      by (auto simp: nth_append less_Suc_eq)
    then have "is_first_max ((pre @ [x]) @ xs) (argmax_scan xs (Suc i) best v)"
      by (rule Cons.IH) (use Cons.prems in \<open>auto simp add: nth_append is_first_max_def\<close>)
    then show ?thesis using False by simp
  qed
qed

lemma argmax_first_max:
  assumes "xs \<noteq> []"
  shows "\<exists>i. argmax xs = Inr i \<and> is_first_max xs i"
proof -
  from assms obtain x rest where xs: "xs = x # rest" by (cases xs) auto
  have "is_first_max [x] 0" by (simp add: is_first_max_def)
  then have "is_first_max ([x] @ rest) (argmax_scan rest 1 0 x)"
    by (rule argmax_scan_first_max) simp_all
  then show ?thesis by (simp add: xs argmax_def)
qed

lemma is_first_max_unique: "is_first_max xs i \<Longrightarrow> is_first_max xs j \<Longrightarrow> i = j"
  unfolding is_first_max_def by (metis linorder_neqE_nat not_less)

lemma is_first_max_Max: "is_first_max xs i \<Longrightarrow> xs ! i = Max (set xs)"
  unfolding is_first_max_def
  by (intro Max_eqI[symmetric]) (auto simp: in_set_conv_nth)

section \<open>Sums of non-negative lists and the truncated weights\<close>

lemma sum_list_take_nonneg:
  fixes xs :: "real list"
  assumes "\<forall>x \<in> set xs. 0 \<le> x"
  shows "0 \<le> sum_list (take i xs)"
  by (rule sum_list_nonneg) (use assms in \<open>auto dest: in_set_takeD\<close>)

lemma sum_list_take_le:
  fixes xs :: "real list"
  assumes "\<forall>x \<in> set xs. 0 \<le> x"
  shows "sum_list (take i xs) \<le> sum_list xs"
proof -
  have "sum_list xs = sum_list (take i xs) + sum_list (drop i xs)"
    by (metis append_take_drop_id sum_list_append)
  moreover have "0 \<le> sum_list (drop i xs)"
    by (rule sum_list_nonneg) (use assms in \<open>auto dest: in_set_dropD\<close>)
  ultimately show ?thesis by simp
qed

lemma sum_list_take_mono:
  fixes xs :: "real list"
  assumes "\<forall>x \<in> set xs. 0 \<le> x" "i \<le> j"
  shows "sum_list (take i xs) \<le> sum_list (take j xs)"
proof -
  have "take i xs = take i (take j xs)" using assms(2) by (simp add: min_def)
  moreover have "\<forall>x \<in> set (take j xs). 0 \<le> x" using assms(1) by (auto dest: in_set_takeD)
  ultimately show ?thesis using sum_list_take_le[of "take j xs" i] by simp
qed

lemma nth_le_sum_list:
  fixes xs :: "real list"
  assumes "\<forall>x \<in> set xs. 0 \<le> x" "i < length xs"
  shows "xs ! i \<le> sum_list xs"
proof -
  have "sum_list (take (Suc i) xs) = sum_list (take i xs) + xs ! i"
    using assms(2) by (simp add: take_Suc_conv_app_nth)
  then have "xs ! i \<le> sum_list (take (Suc i) xs)"
    using sum_list_take_nonneg[OF assms(1), of i] by simp
  also have "\<dots> \<le> sum_list xs" by (rule sum_list_take_le[OF assms(1)])
  finally show ?thesis .
qed

lemma truncate_nonneg:
  assumes "\<forall>x \<in> set xs. 0 \<le> x"
  shows "\<forall>x \<in> set (top_p_truncate xs p). 0 \<le> x"
proof
  fix x assume "x \<in> set (top_p_truncate xs p)"
  then obtain i where i: "i < length xs" "x = top_p_truncate xs p ! i"
    by (auto simp: in_set_conv_nth top_p_truncate_length)
  then show "0 \<le> x" using assms by (simp add: top_p_truncate_nth)
qed

lemma truncate_head:
  assumes "xs \<noteq> []" "0 \<le> p"
  shows "top_p_truncate xs p ! 0 = xs ! 0"
  using assms by (simp add: top_p_truncate_nth)

lemma pos_sum_nonempty:
  fixes xs :: "real list"
  shows "0 < sum_list xs \<Longrightarrow> xs \<noteq> []"
  by auto

lemma pos_sum_Max_pos:
  fixes xs :: "real list"
  assumes "0 < sum_list xs"
  shows "0 < Max (set xs)"
proof (rule ccontr)
  assume "\<not> 0 < Max (set xs)"
  then have "Max (set xs) \<le> 0" by simp
  then have "\<forall>x \<in> set xs. x \<le> 0" by (meson List.finite_set Max_ge order_trans)
  then have "sum_list xs \<le> 0" by (intro sum_list_nonpos) auto
  with assms show False by simp
qed

lemma truncate_sum_pos:
  assumes "\<forall>x \<in> set probs. 0 \<le> x" "0 < sum_list probs" "0 \<le> p"
  shows "0 < sum_list (top_p_truncate (fst (torch_sort_desc probs)) p)"
proof -
  let ?s = "fst (torch_sort_desc probs)"
  let ?t = "top_p_truncate ?s p"
  have ne: "probs \<noteq> []" using assms(2) by auto
  then have sne: "?s \<noteq> []" using sort_length(1)[of probs] by auto
  have "?t ! 0 = Max (set probs)"
    using truncate_head[OF sne assms(3)] sort_head_max[OF ne] by simp
  then have "0 < ?t ! 0" using pos_sum_Max_pos[OF assms(2)] by simp
  moreover have "?t ! 0 \<le> sum_list ?t"
  proof (rule nth_le_sum_list)
    have "\<forall>x \<in> set ?s. 0 \<le> x" using assms(1) by (simp add: sort_set)
    then show "\<forall>x \<in> set ?t. 0 \<le> x" by (rule truncate_nonneg)
    show "0 < length ?t" using ne by (simp add: top_p_truncate_length sort_length)
  qed
  ultimately show ?thesis by simp
qed

lemma sum_list_map_divide:
  fixes xs :: "real list"
  shows "sum_list (map (\<lambda>x. x / c) xs) = sum_list xs / c"
  by (induction xs) (simp_all add: add_divide_distrib)

lemma renormalize_sum:
  assumes "renormalize ws = Inr ws'"
  shows "sum_list ws' = 1"
proof -
  from assms have nz: "sum_list ws \<noteq> 0" and ws': "ws' = map (\<lambda>x. x / sum_list ws) ws"
    by (auto simp: renormalize_def Let_def split: if_splits)
  have "sum_list ws' = sum_list ws / sum_list ws"
    unfolding ws' by (rule sum_list_map_divide)
  then show ?thesis using nz by simp
qed

lemma sample_top_p_unfold:
  "sample_top_p draw g probs p =
     (case top_p_weights probs p of
        Inl e \<Rightarrow> Inl e
      | Inr ws \<Rightarrow>
          (case multinomial draw g ws of
             Inl e \<Rightarrow> Inl e
           | Inr (r, g') \<Rightarrow> Inr (snd (torch_sort_desc probs) ! r, g')))"
  by (simp add: sample_top_p_def top_p_weights_def split_beta)

lemma top_p_weights_Inr:
  assumes "\<forall>x \<in> set probs. 0 \<le> x" "0 < sum_list probs" "0 \<le> p"
  shows "\<exists>ws. top_p_weights probs p = Inr ws \<and> length ws = length probs
           \<and> (\<forall>w \<in> set ws. 0 \<le> w) \<and> sum_list ws = 1"
proof -
  let ?t = "top_p_truncate (fst (torch_sort_desc probs)) p"
  let ?ws = "map (\<lambda>x. x / sum_list ?t) ?t"
  have pos: "0 < sum_list ?t" by (rule truncate_sum_pos[OF assms])
  then have w: "top_p_weights probs p = Inr ?ws"
    by (simp add: top_p_weights_def renormalize_def)
  have "\<forall>x \<in> set (fst (torch_sort_desc probs)). 0 \<le> x" using assms(1) by (simp add: sort_set)
  then have "\<forall>x \<in> set ?t. 0 \<le> x" by (rule truncate_nonneg)
  then have nn: "\<forall>w \<in> set ?ws. 0 \<le> w" using pos by auto
  have "sum_list ?ws = 1" using pos by (simp add: sum_list_map_divide)
  then show ?thesis using w nn by (simp add: top_p_truncate_length sort_length)
qed

lemma multinomial_Inr:
  assumes "\<forall>w \<in> set ws. 0 \<le> w" "0 < sum_list ws"
  shows "multinomial draw g ws = Inr (draw g ws)"
proof -
  have "\<not> (\<exists>w \<in> set ws. w < 0)" using assms(1) by (auto simp: not_less)
  moreover have "\<not> sum_list ws \<le> 0" using assms(2) by simp
  ultimately show ?thesis by (simp add: multinomial_def)
qed

lemma sample_top_p_Inr:
  assumes "\<forall>x \<in> set probs. 0 \<le> x" "0 < sum_list probs" "0 \<le> p"
  shows "\<exists>ws. top_p_weights probs p = Inr ws \<and>
           sample_top_p draw g probs p =
             Inr (snd (torch_sort_desc probs) ! fst (draw g ws), snd (draw g ws))"
proof -
  from top_p_weights_Inr[OF assms] obtain ws where
    ws: "top_p_weights probs p = Inr ws" "\<forall>w \<in> set ws. 0 \<le> w" "sum_list ws = 1"
    by blast
  have "multinomial draw g ws = Inr (draw g ws)"
    by (rule multinomial_Inr) (use ws in simp_all)
  then show ?thesis using ws(1) by (simp add: sample_top_p_unfold split_beta)
qed

lemma sum_list_exp_pos:
  fixes xs :: "real list"
  assumes "xs \<noteq> []"
  shows "0 < sum_list (map exp xs)"
proof -
  from assms obtain a rest where xs: "xs = a # rest" by (cases xs) auto
  have "0 \<le> sum_list (map exp rest)" by (rule sum_list_nonneg) auto
  then have "0 < exp a + sum_list (map exp rest)" by (intro add_pos_nonneg) simp_all
  then show ?thesis by (simp add: xs)
qed

lemma softmax_pos: "\<forall>x \<in> set (softmax xs). 0 < x"
proof (cases "xs = []")
  case True
  then show ?thesis by (simp add: softmax_def)
next
  case False
  then show ?thesis using sum_list_exp_pos[OF False] by (auto simp: softmax_def)
qed

lemma softmax_sum:
  assumes "xs \<noteq> []"
  shows "sum_list (softmax xs) = 1"
proof -
  have "sum_list (softmax xs) = sum_list (map (\<lambda>y. y / sum_list (map exp xs)) (map exp xs))"
    by (simp add: softmax_def comp_def)
  also have "\<dots> = sum_list (map exp xs) / sum_list (map exp xs)"
    by (rule sum_list_map_divide)
  finally show ?thesis using sum_list_exp_pos[OF assms] by simp
qed

lemma select_next_token_Inr:
  assumes "xs \<noteq> []" "do_sample S \<longrightarrow> temperature S \<noteq> 0 \<and> 0 \<le> top_p S"
  shows "\<exists>tok g'. select_next_token S g xs = Inr (tok, g')"
proof (cases "do_sample S")
  case True
  define probs where "probs = softmax (map (\<lambda>x. x / temperature S) xs)"
  have ne: "map (\<lambda>x. x / temperature S) xs \<noteq> []" using assms(1) by simp
  have nonneg: "\<forall>x \<in> set probs. 0 \<le> x"
  proof
    fix x assume "x \<in> set probs"
    then have "0 < x" using softmax_pos unfolding probs_def by blast
    then show "0 \<le> x" by simp
  qed
  have pos: "0 < sum_list probs" unfolding probs_def using softmax_sum[OF ne] by simp
  have p: "0 \<le> top_p S" using assms(2) True by simp
  from sample_top_p_Inr[OF nonneg pos p, of "multinomial_draw S" g]
  obtain tok g' where "sample_top_p (multinomial_draw S) g probs (top_p S) = Inr (tok, g')"
    by blast
  moreover have "select_next_token S g xs = sample_top_p (multinomial_draw S) g probs (top_p S)"
    using True assms(2) by (simp add: select_next_token_def probs_def)
  ultimately show ?thesis by simp
next
  case False
  from argmax_first_max[OF assms(1)] obtain i where "argmax xs = Inr i" by blast
  then show ?thesis using False by (simp add: select_next_token_def)
qed

section \<open>The loop\<close>

lemma decode_step_Inr:
  assumes "decode_step S st = Inr (stop, st')"
  shows "\<exists>tok. generated_tokens st' = generated_tokens st @ [tok]
           \<and> (stop \<longleftrightarrow> tok = eos_token_id S)
           \<and> attention_mask st' = (if stop then attention_mask st else attention_mask st @ [1])
           \<and> input_ids st' = (if stop then input_ids st else [tok])
           \<and> pixel_values st' = pixel_values st"
  using assms
  by (auto simp: decode_step_def Let_def split: sum.splits prod.splits if_splits)

lemma decode_step_total:
  assumes "model_ok S" "do_sample S \<longrightarrow> temperature S \<noteq> 0 \<and> 0 \<le> top_p S"
    and "input_ids st \<noteq> []"
  shows "\<exists>stop st'. decode_step S st = Inr (stop, st') \<and> input_ids st' \<noteq> []"
proof -
  from assms(1,3) obtain out where
    out: "model S (input_ids st) (pixel_values st) (attention_mask st) (kv_cache st) = Inr out"
      "logits out \<noteq> []" "last (logits out) \<noteq> []"
    unfolding model_ok_def by blast
  from select_next_token_Inr[OF out(3) assms(2)] obtain tok g' where
    "select_next_token S (rng st) (last (logits out)) = Inr (tok, g')" by blast
  then have "\<exists>stop st'. decode_step S st = Inr (stop, st')"
    using out by (auto simp: decode_step_def last_position_def Let_def)
  then obtain stop st' where step: "decode_step S st = Inr (stop, st')" by blast
  from decode_step_Inr[OF step] assms(3) have "input_ids st' \<noteq> []" by auto
  with step show ?thesis by blast
qed

lemma decode_loop_total:
  assumes "model_ok S" "do_sample S \<longrightarrow> temperature S \<noteq> 0 \<and> 0 \<le> top_p S"
  shows "input_ids st \<noteq> [] \<Longrightarrow> \<exists>st'. decode_loop S n st = Inr st'"
proof (induction n arbitrary: st)
  case 0
  then show ?case by simp
next
  case (Suc n)
  from decode_step_total[OF assms Suc.prems] obtain stop st1 where
    "decode_step S st = Inr (stop, st1)" "input_ids st1 \<noteq> []"
    by blast
  then show ?case using Suc.IH[of st1] by auto
qed

lemma decode_loop_shape:
  assumes "decode_loop S n st = Inr st'"
  shows "\<exists>new. generated_tokens st' = generated_tokens st @ new
     \<and> length new \<le> n
     \<and> (\<forall>i. Suc i < length new \<longrightarrow> new ! i \<noteq> eos_token_id S)
     \<and> (length new < n \<longrightarrow> new \<noteq> [] \<and> last new = eos_token_id S)
     \<and> attention_mask st' =
         attention_mask st @ replicate (length (filter (\<lambda>t. t \<noteq> eos_token_id S) new)) 1
     \<and> pixel_values st' = pixel_values st"
  using assms
proof (induction n arbitrary: st)
  case 0
  then show ?case by simp
next
  case (Suc n)
  from Suc.prems obtain stop st1 where step: "decode_step S st = Inr (stop, st1)"
    by (auto split: sum.splits)
  from decode_step_Inr[OF step] obtain tok where tok:
    "generated_tokens st1 = generated_tokens st @ [tok]"
    "stop \<longleftrightarrow> tok = eos_token_id S"
    "attention_mask st1 = (if stop then attention_mask st else attention_mask st @ [1])"
    "pixel_values st1 = pixel_values st"
    by blast
  show ?case
  proof (cases stop)
    case True
    then have "st' = st1" using Suc.prems step by simp
    then show ?thesis using tok True
      by (intro exI[of _ "[tok]"]) simp
  next
    case False
    then have "decode_loop S n st1 = Inr st'" using Suc.prems step by simp
    from Suc.IH[OF this] obtain new where new:
      "generated_tokens st' = generated_tokens st1 @ new"
      "length new \<le> n"
      "\<forall>i. Suc i < length new \<longrightarrow> new ! i \<noteq> eos_token_id S"
      "length new < n \<longrightarrow> new \<noteq> [] \<and> last new = eos_token_id S"
      "attention_mask st' =
         attention_mask st1 @ replicate (length (filter (\<lambda>t. t \<noteq> eos_token_id S) new)) 1"
      "pixel_values st' = pixel_values st1"
      by blast
    have nth: "\<forall>i. Suc i < length (tok # new) \<longrightarrow> (tok # new) ! i \<noteq> eos_token_id S"
    proof (intro allI impI)
      fix i assume "Suc i < length (tok # new)"
      then show "(tok # new) ! i \<noteq> eos_token_id S"
        using new(3) tok(2) False by (cases i) auto
    qed
    have gen: "generated_tokens st' = generated_tokens st @ tok # new"
      using new(1) tok(1) by simp
    have len: "length (tok # new) \<le> Suc n" using new(2) by simp
    have early: "length (tok # new) < Suc n \<longrightarrow> tok # new \<noteq> [] \<and> last (tok # new) = eos_token_id S"
      using new(4) by auto
    have "filter (\<lambda>t. t \<noteq> eos_token_id S) (tok # new) = tok # filter (\<lambda>t. t \<noteq> eos_token_id S) new"
      using tok(2) False by simp
    then have am: "attention_mask st' =
        attention_mask st @ replicate (length (filter (\<lambda>t. t \<noteq> eos_token_id S) (tok # new))) 1"
      using new(5) tok(3) False by simp
    have pv: "pixel_values st' = pixel_values st" using new(6) tok(4) by simp
    from gen len nth early am pv show ?thesis by blast
  qed
qed

lemma top_p_mask_nth:
  assumes "i < length xs"
  shows "top_p_mask xs p ! i \<longleftrightarrow> p < sum_list (take i xs)"
  using assms cumsum_excl[OF assms] by (simp add: top_p_mask_def cumsum_length)


lemma pos_sum_has_pos:
  fixes ws :: "real list"
  assumes "0 < sum_list ws"
  shows "\<exists>i < length ws. 0 < ws ! i"
proof -
  have "ws \<noteq> []" using assms by auto
  then have "Max (set ws) \<in> set ws" by (intro Max_in) simp_all
  then obtain i where "i < length ws" "ws ! i = Max (set ws)" by (auto simp: in_set_conv_nth)
  then show ?thesis using pos_sum_Max_pos[OF assms] by auto
qed

lemma draw_ok_counter_draw: "draw_ok counter_draw"
  unfolding draw_ok_def
proof (intro allI impI)
  fix g :: nat and ws :: "real list"
  assume a: "(\<forall>w \<in> set ws. 0 \<le> w) \<and> 0 < sum_list ws"
  define support where "support = filter (\<lambda>r. 0 < ws ! r) [0..<length ws]"
  from a pos_sum_has_pos obtain i where "i < length ws" "0 < ws ! i" by blast
  then have "i \<in> set support" by (simp add: support_def)
  then have "0 < length support" by (cases support) auto
  then have "support ! (g mod length support) \<in> set support" by simp
  then have "support ! (g mod length support) < length ws \<and> 0 < ws ! (support ! (g mod length support))"
    by (simp add: support_def)
  moreover have "fst (counter_draw g ws) = support ! (g mod length support)"
    by (simp add: counter_draw_def support_def Let_def)
  ultimately show "fst (counter_draw g ws) < length ws \<and> 0 < ws ! fst (counter_draw g ws)"
    by simp
qed

lemma new_tokens_append:
  "generated_tokens st' = generated_tokens st @ new \<Longrightarrow> new_tokens st st' = new"
  by (simp add: new_tokens_def)

lemma decode_loop_prefix:
  assumes "decode_loop S n st = Inr st_end"
    and "generated_tokens st_end = generated_tokens st @ new"
    and "k \<le> length new"
  shows "\<exists>stk. decode_loop S k st = Inr stk \<and> generated_tokens stk = generated_tokens st @ take k new"
  using assms
proof (induction n arbitrary: st k new)
  case 0
  then show ?case by simp
next
  case (Suc n)
  show ?case
  proof (cases k)
    case 0
    then show ?thesis by simp
  next
    case (Suc k')
    from Suc.prems(1) obtain stop st1 where step: "decode_step S st = Inr (stop, st1)"
      by (auto split: sum.splits)
    from decode_step_Inr[OF step] obtain tok where
      tok: "generated_tokens st1 = generated_tokens st @ [tok]" by blast
    show ?thesis
    proof (cases stop)
      case True
      then have e: "st_end = st1" using Suc.prems(1) step by simp
      then have "new = [tok]" using tok Suc.prems(2) by simp
      then have "take k new = [tok]" using Suc by simp
      moreover have "decode_loop S k st = Inr st1" using step True Suc by simp
      ultimately show ?thesis using tok by simp
    next
      case False
      then have run: "decode_loop S n st1 = Inr st_end" using Suc.prems(1) step by simp
      from decode_loop_shape[OF run] obtain new1 where
        new1: "generated_tokens st_end = generated_tokens st1 @ new1" by blast
      then have new: "new = tok # new1" using tok Suc.prems(2) by simp
      then have "k' \<le> length new1" using Suc.prems(3) Suc by simp
      from Suc.IH[OF run new1 this] obtain stk where
        stk: "decode_loop S k' st1 = Inr stk" "generated_tokens stk = generated_tokens st1 @ take k' new1"
        by blast
      have "decode_loop S k st = Inr stk" using step False stk(1) Suc by simp
      moreover have "generated_tokens stk = generated_tokens st @ take k new"
        using stk(2) tok new Suc by simp
      ultimately show ?thesis by blast
    qed
  qed
qed

lemma filter_all_but_last:
  assumes "\<forall>i. Suc i < length xs \<longrightarrow> xs ! i \<noteq> e" "xs \<noteq> []"
  shows "length (filter (\<lambda>t. t \<noteq> e) xs) = (if last xs = e then length xs - 1 else length xs)"
proof -
  have xs: "xs = butlast xs @ [last xs]" using assms(2) by simp
  have "\<forall>t \<in> set (butlast xs). t \<noteq> e"
  proof
    fix t assume "t \<in> set (butlast xs)"
    then obtain i where i: "i < length (butlast xs)" "t = butlast xs ! i"
      by (auto simp: in_set_conv_nth)
    then have "Suc i < length xs" by simp
    moreover have "t = xs ! i" using i by (simp add: nth_butlast)
    ultimately show "t \<noteq> e" using assms(1) by simp
  qed
  then have f: "filter (\<lambda>t. t \<noteq> e) (butlast xs) = butlast xs" by (simp add: filter_id_conv)
  have "filter (\<lambda>t. t \<noteq> e) xs = filter (\<lambda>t. t \<noteq> e) (butlast xs) @ filter (\<lambda>t. t \<noteq> e) [last xs]"
    by (subst xs) (simp only: filter_append)
  moreover have "0 < length xs" using assms(2) by simp
  ultimately show ?thesis using f by simp
qed

section \<open>Rounded arithmetic\<close>

subsection \<open>The exact arithmetic\<close>

lemma exact_mask: "top_p_mask_in exact_arith xs p = top_p_mask xs p"
  by (simp add: top_p_mask_in_def top_p_mask_def exact_arith_def)

lemma exact_truncate: "top_p_truncate_in exact_arith xs p = top_p_truncate xs p"
  by (simp add: top_p_truncate_in_def top_p_truncate_def exact_mask)

lemma exact_renormalize: "renormalize_in exact_arith ws = renormalize ws"
  by (simp add: renormalize_in_def renormalize_def exact_arith_def Let_def)

lemma exact_sample_top_p: "sample_top_p_in exact_arith draw g probs p = sample_top_p draw g probs p"
  by (simp add: sample_top_p_in_def sample_top_p_def exact_truncate exact_renormalize)

lemma arith_ok_exact:
  assumes "0 \<le> u" "u < 1" "0 \<le> \<gamma>" "\<gamma> < 1"
  shows "arith_ok u \<gamma> n exact_arith"
proof -
  have c: "(1 - \<gamma>) * sum_list (take (Suc k) xs) \<le> cumsum xs ! k"
    if "\<forall>x \<in> set xs. 0 \<le> x" "k < length xs" for xs :: "real list" and k
  proof -
    have "0 \<le> sum_list (take (Suc k) xs)" by (rule sum_list_take_nonneg[OF that(1)])
    then have "(1 - \<gamma>) * sum_list (take (Suc k) xs) \<le> 1 * sum_list (take (Suc k) xs)"
      using assms(3) by (intro mult_right_mono) simp_all
    then show ?thesis using that(2) by (simp add: cumsum_nth)
  qed
  have s: "(1 - \<gamma>) * sum_list xs \<le> sum_list xs" if "\<forall>x \<in> set xs. 0 \<le> x" for xs :: "real list"
  proof -
    have "0 \<le> sum_list xs" by (rule sum_list_nonneg) (use that in auto)
    then have "(1 - \<gamma>) * sum_list xs \<le> 1 * sum_list xs"
      using assms(3) by (intro mult_right_mono) simp_all
    then show ?thesis by simp
  qed
  have h: "cumsum xs ! 0 = xs ! 0" if "xs \<noteq> []" for xs :: "real list"
    using that by (cases xs) (simp_all add: cumsum_def)
  show ?thesis
    unfolding arith_ok_def using assms c s h
    by (simp add: exact_arith_def cumsum_length)
qed

lemma top_p_truncate_in_length:
  assumes "length (cumsum_op A xs) = length xs"
  shows "length (top_p_truncate_in A xs p) = length xs"
  using assms by (simp add: top_p_truncate_in_def top_p_mask_in_def)

lemma top_p_truncate_in_nth:
  assumes "length (cumsum_op A xs) = length xs" "i < length xs"
  shows "top_p_truncate_in A xs p ! i =
           (if scalar_op A p < sub_op A (cumsum_op A xs ! i) (xs ! i) then 0 else xs ! i)"
  using assms by (simp add: top_p_truncate_in_def top_p_mask_in_def)

lemma sub_op_lower:
  assumes "\<bar>s - d\<bar> \<le> u * \<bar>d\<bar>" "0 \<le> d"
  shows "(1 - u) * d \<le> (s::real)"
proof -
  have "d - s \<le> u * d" using assms by (simp add: abs_le_iff)
  then show ?thesis by (simp add: algebra_simps)
qed

subsection \<open>Rounding to 32-bit floating point\<close>

lemma unit_f32_bounds: "0 < unit_f32" "unit_f32 < 1"
  by (simp_all add: unit_f32_def)

lemma round_even_error: "\<bar>of_int (round_even y) - y\<bar> \<le> 1 / 2"
proof -
  have "of_int \<lfloor>y\<rfloor> \<le> y" "y < of_int \<lfloor>y\<rfloor> + 1" by linarith+
  then show ?thesis unfolding round_even_def Let_def by (auto simp: abs_le_iff)
qed

lemma round_f32_rel: "\<bar>round_f32 x - x\<bar> \<le> unit_f32 * \<bar>x\<bar>"
proof (cases "x = 0")
  case True
  then show ?thesis by (simp add: round_f32_def)
next
  case False
  define e where "e = \<lfloor>log 2 \<bar>x\<bar>\<rfloor>"
  define q :: real where "q = 2 powr of_int (e - 23)"
  have qpos: "0 < q" by (simp add: q_def)
  have ax: "0 < \<bar>x\<bar>" using False by simp
  have "2 powr of_int e \<le> \<bar>x\<bar>"
    using floor_log_eq_powr_iff[of "\<bar>x\<bar>" 2 e] ax e_def by simp
  moreover have "q = 2 powr of_int e / 2 ^ 23"
    by (simp add: q_def powr_diff)
  ultimately have qb: "q / 2 \<le> unit_f32 * \<bar>x\<bar>" by (simp add: unit_f32_def)
  have r: "round_f32 x = of_int (round_even (x / q)) * q"
    using False by (simp add: round_f32_def Let_def e_def q_def)
  have "round_f32 x - x = (of_int (round_even (x / q)) - x / q) * q"
    using qpos by (simp add: r algebra_simps)
  then have "\<bar>round_f32 x - x\<bar> = \<bar>of_int (round_even (x / q)) - x / q\<bar> * q"
    using qpos by (simp add: abs_mult)
  also have "\<dots> \<le> 1 / 2 * q"
    using round_even_error[of "x / q"] qpos by (intro mult_right_mono) simp_all
  finally show ?thesis using qb by simp
qed

lemma round_f32_lower:
  assumes "0 \<le> x"
  shows "(1 - unit_f32) * x \<le> round_f32 x"
proof -
  have "\<bar>round_f32 x - x\<bar> \<le> unit_f32 * x" using round_f32_rel[of x] assms by simp
  then have "x - round_f32 x \<le> unit_f32 * x" by linarith
  then show ?thesis by (simp add: left_diff_distrib)
qed

lemma round_f32_upper:
  assumes "0 \<le> x"
  shows "round_f32 x \<le> (1 + unit_f32) * x"
proof -
  have "\<bar>round_f32 x - x\<bar> \<le> unit_f32 * x" using round_f32_rel[of x] assms by simp
  then have "round_f32 x - x \<le> unit_f32 * x" by linarith
  then show ?thesis by (simp add: distrib_right)
qed

lemma round_f32_nonneg: "0 \<le> x \<Longrightarrow> 0 \<le> round_f32 x"
proof -
  assume a: "0 \<le> x"
  have "0 \<le> (1 - unit_f32) * x" using a unit_f32_bounds by simp
  then show ?thesis using round_f32_lower[OF a] by linarith
qed

lemma shrink_step:
  fixes v :: real
  assumes "0 \<le> v" "v \<le> 1" "0 \<le> S" "v * y \<le> r" "0 \<le> c"
  shows "c * v * (y + S) \<le> c * (r + S)"
proof -
  have "v * S \<le> 1 * S" using assms(2,3) by (intro mult_right_mono) simp_all
  then have "v * (y + S) \<le> r + S" using assms(4) by (simp add: algebra_simps)
  then have "c * (v * (y + S)) \<le> c * (r + S)" using assms(5) by (rule mult_left_mono)
  then show ?thesis by (simp add: mult.assoc)
qed

lemma cumsum_f32_from_lower:
  assumes "0 \<le> a" "\<forall>x \<in> set xs. 0 \<le> x" "k < length xs"
  shows "(1 - unit_f32) ^ Suc k * (a + sum_list (take (Suc k) xs)) \<le> cumsum_f32_from a xs ! k"
  using assms
proof (induction xs arbitrary: a k)
  case Nil
  then show ?case by simp
next
  case (Cons x xs)
  let ?v = "1 - unit_f32"
  have ax: "0 \<le> a + x" using Cons.prems by simp
  have low: "?v * (a + x) \<le> round_f32 (a + x)" by (rule round_f32_lower[OF ax])
  show ?case
  proof (cases k)
    case 0
    then show ?thesis using low by simp
  next
    case (Suc j)
    let ?S = "sum_list (take (Suc j) xs)"
    have S: "0 \<le> ?S" by (rule sum_list_take_nonneg) (use Cons.prems in simp)
    have j: "j < length xs" using Cons.prems Suc by simp
    have "?v ^ Suc j * ?v * ((a + x) + ?S) \<le> ?v ^ Suc j * (round_f32 (a + x) + ?S)"
      by (rule shrink_step[OF _ _ S low]) (use unit_f32_bounds in simp_all)
    also have "\<dots> \<le> cumsum_f32_from (round_f32 (a + x)) xs ! j"
      by (rule Cons.IH[OF round_f32_nonneg[OF ax] _ j]) (use Cons.prems in simp)
    finally show ?thesis using Suc by (simp add: algebra_simps)
  qed
qed

lemma foldl_f32_lower:
  assumes "0 \<le> a" "\<forall>x \<in> set xs. 0 \<le> x"
  shows "(1 - unit_f32) ^ length xs * (a + sum_list xs)
           \<le> foldl (\<lambda>a x. round_f32 (a + x)) a xs"
  using assms
proof (induction xs arbitrary: a)
  case Nil
  then show ?case by simp
next
  case (Cons x xs)
  let ?v = "1 - unit_f32"
  have ax: "0 \<le> a + x" using Cons.prems by simp
  have low: "?v * (a + x) \<le> round_f32 (a + x)" by (rule round_f32_lower[OF ax])
  have S: "0 \<le> sum_list xs" by (rule sum_list_nonneg) (use Cons.prems in simp)
  have "?v ^ length xs * ?v * ((a + x) + sum_list xs) \<le> ?v ^ length xs * (round_f32 (a + x) + sum_list xs)"
    by (rule shrink_step[OF _ _ S low]) (use unit_f32_bounds in simp_all)
  also have "\<dots> \<le> foldl (\<lambda>a x. round_f32 (a + x)) (round_f32 (a + x)) xs"
    by (rule Cons.IH[OF round_f32_nonneg[OF ax]]) (use Cons.prems in simp)
  finally show ?case by (simp add: algebra_simps)
qed

lemma shrink_power:
  assumes "k \<le> n"
  shows "1 - real n * unit_f32 \<le> (1 - unit_f32) ^ k"
proof -
  have "1 + real k * (- unit_f32) \<le> (1 + (- unit_f32)) ^ k"
    by (rule Bernoulli_inequality) (use unit_f32_bounds in simp)
  moreover have "real k * unit_f32 \<le> real n * unit_f32"
    using assms unit_f32_bounds by (intro mult_right_mono) simp_all
  ultimately show ?thesis by simp
qed

lemma arith_ok_f32:
  assumes "real n < 2 ^ 24"
  shows "arith_ok unit_f32 (real n * unit_f32) n f32_arith"
proof -
  let ?v = "1 - unit_f32"
  let ?g = "real n * unit_f32"
  have g: "0 \<le> ?g" "?g < 1" using assms by (simp_all add: unit_f32_def)
  have len: "length (cumsum_f32 xs) = length xs" for xs
  proof (cases xs)
    case Nil
    then show ?thesis by (simp add: cumsum_f32_def)
  next
    case (Cons x rest)
    have "length (cumsum_f32_from a ys) = length ys" for a ys
      by (induction ys arbitrary: a) simp_all
    then show ?thesis using Cons by (simp add: cumsum_f32_def)
  qed
  have hd: "cumsum_f32 xs ! 0 = xs ! 0" if "xs \<noteq> []" for xs
    using that by (cases xs) (simp_all add: cumsum_f32_def)
  have cs: "(1 - ?g) * sum_list (take (Suc k) xs) \<le> cumsum_f32 xs ! k"
    if "length xs \<le> n \<and> (\<forall>x \<in> set xs. 0 \<le> x) \<and> k < length xs" for xs k
  proof -
    from that obtain x rest where xs: "xs = x # rest" by (cases xs) auto
    have P: "0 \<le> sum_list (take (Suc k) xs)" by (rule sum_list_take_nonneg) (use that in simp)
    have kn: "k \<le> n" using that by simp
    have "(1 - ?g) * sum_list (take (Suc k) xs) \<le> ?v ^ k * sum_list (take (Suc k) xs)"
      using shrink_power[OF kn] P by (rule mult_right_mono)
    also have "\<dots> \<le> cumsum_f32 xs ! k"
    proof (cases k)
      case 0
      then show ?thesis by (simp add: xs cumsum_f32_def)
    next
      case (Suc j)
      have "?v ^ Suc j * (x + sum_list (take (Suc j) rest)) \<le> cumsum_f32_from x rest ! j"
        by (rule cumsum_f32_from_lower) (use that xs Suc in simp_all)
      then show ?thesis using Suc by (simp add: xs cumsum_f32_def)
    qed
    finally show ?thesis .
  qed
  have sm: "(1 - ?g) * sum_list xs \<le> foldl (\<lambda>a x. round_f32 (a + x)) 0 xs"
    if "length xs \<le> n \<and> (\<forall>x \<in> set xs. 0 \<le> x)" for xs
  proof -
    have S: "0 \<le> sum_list xs" by (rule sum_list_nonneg) (use that in simp)
    have "(1 - ?g) * sum_list xs \<le> ?v ^ length xs * sum_list xs"
      using shrink_power[of "length xs" n] that S by (intro mult_right_mono) simp_all
    also have "\<dots> \<le> foldl (\<lambda>a x. round_f32 (a + x)) 0 xs"
      using foldl_f32_lower[of 0 xs] that by simp
    finally show ?thesis .
  qed
  have c1: "\<forall>xs. length (cumsum_op f32_arith xs) = length xs"
    using len by (simp add: f32_arith_def)
  have c2: "\<forall>xs. xs \<noteq> [] \<longrightarrow> cumsum_op f32_arith xs ! 0 = xs ! 0"
    using hd by (simp add: f32_arith_def)
  have c3: "\<forall>xs k. length xs \<le> n \<and> (\<forall>x \<in> set xs. 0 \<le> x) \<and> k < length xs \<longrightarrow>
      (1 - ?g) * sum_list (take (Suc k) xs) \<le> cumsum_op f32_arith xs ! k"
    using cs by (simp add: f32_arith_def)
  have c4: "\<forall>a b. \<bar>sub_op f32_arith a b - (a - b)\<bar> \<le> unit_f32 * \<bar>a - b\<bar>"
  proof (intro allI)
    fix a b :: real
    have "sub_op f32_arith a b = round_f32 (a - b)" by (simp add: f32_arith_def)
    then show "\<bar>sub_op f32_arith a b - (a - b)\<bar> \<le> unit_f32 * \<bar>a - b\<bar>"
      using round_f32_rel[of "a - b"] by simp
  qed
  have c5: "\<forall>xs. length xs \<le> n \<and> (\<forall>x \<in> set xs. 0 \<le> x) \<longrightarrow>
      (1 - ?g) * sum_list xs \<le> sum_op f32_arith xs"
    using sm by (simp add: f32_arith_def)
  have c6: "\<forall>a b. \<bar>div_op f32_arith a b - a / b\<bar> \<le> unit_f32 * \<bar>a / b\<bar>"
  proof (intro allI)
    fix a b :: real
    have "div_op f32_arith a b = round_f32 (a / b)" by (simp add: f32_arith_def)
    then show "\<bar>div_op f32_arith a b - a / b\<bar> \<le> unit_f32 * \<bar>a / b\<bar>"
      using round_f32_rel[of "a / b"] by (simp only:)
  qed
  have c0: "0 \<le> unit_f32" "unit_f32 < 1" using unit_f32_bounds by simp_all
  show ?thesis
    unfolding arith_ok_def using c0 g c1 c2 c3 c4 c5 c6 by blast
qed

subsection \<open>Rounding of particular numbers\<close>

lemma round_f32_binade:
  assumes "2 powr of_int k \<le> \<bar>x\<bar>" "\<bar>x\<bar> < 2 powr of_int (k + 1)"
  shows "round_f32 x = of_int (round_even (x / 2 powr of_int (k - 23))) * 2 powr of_int (k - 23)"
proof -
  have pos: "0 < \<bar>x\<bar>" using assms(1) by (smt (verit) powr_gt_zero)
  then have "x \<noteq> 0" by simp
  moreover have "\<lfloor>log 2 \<bar>x\<bar>\<rfloor> = k"
    using assms pos by (simp add: floor_log_eq_powr_iff)
  ultimately show ?thesis by (simp add: round_f32_def Let_def)
qed

lemma round_f32_half_one:
  assumes "1 / 2 \<le> x" "x < 1"
  shows "round_f32 x = of_int (round_even (x * 16777216)) / 16777216"
proof -
  have q: "(2::real) powr of_int (- 1 - 23) = 1 / 16777216"
    by (simp add: powr_minus powr_numeral divide_simps)
  have "round_f32 x = of_int (round_even (x / 2 powr of_int (- 1 - 23))) * 2 powr of_int (- 1 - 23)"
    by (rule round_f32_binade) (use assms in \<open>simp_all add: powr_minus\<close>)
  then show ?thesis unfolding q by simp
qed

lemma round_f32_quarter_half:
  assumes "1 / 4 \<le> x" "x < 1 / 2"
  shows "round_f32 x = of_int (round_even (x * 33554432)) / 33554432"
proof -
  have p2: "(2::real) powr of_int (- 2) = 1 / 4" by (simp add: powr_minus powr_numeral divide_simps)
  have q: "(2::real) powr of_int (- 2 - 23) = 1 / 33554432"
    by (simp add: powr_minus powr_numeral divide_simps)
  have "round_f32 x = of_int (round_even (x / 2 powr of_int (- 2 - 23))) * 2 powr of_int (- 2 - 23)"
    by (rule round_f32_binade) (use assms p2 in \<open>simp_all add: powr_minus\<close>)
  then show ?thesis unfolding q by simp
qed

lemma f32_quarter: "round_f32 (1 / 4) = 1 / 4"
  by (subst round_f32_quarter_half) (simp_all add: round_even_def)

lemma f32_half: "round_f32 (1 / 2) = 1 / 2"
  by (subst round_f32_half_one) (simp_all add: round_even_def)

lemma f32_three_quarters: "round_f32 (3 / 4) = 3 / 4"
  by (subst round_f32_half_one) (simp_all add: round_even_def)

lemma f32_tie_above_half: "round_f32 (1 / 2 + 1 / 2 ^ 25) = 1 / 2"
  by (subst round_f32_half_one) (simp_all add: round_even_def)

lemma f32_tie_below_one: "round_f32 (1 - 1 / 2 ^ 25) = 1"
  by (subst round_f32_half_one) (simp_all add: round_even_def)

lemma f32_tie_above_three_quarters: "round_f32 (3 / 4 + 1 / 2 ^ 25) = 3 / 4"
  by (subst round_f32_half_one) (simp_all add: round_even_def)

lemma f32_above_quarter: "round_f32 (1 / 4 + 1 / 2 ^ 25) = 1 / 4 + 1 / 2 ^ 25"
  by (subst round_f32_quarter_half) (simp_all add: round_even_def)

lemma f32_above_half: "round_f32 (1 / 2 + 1 / 2 ^ 24) = 1 / 2 + 1 / 2 ^ 24"
  by (subst round_f32_half_one) (simp_all add: round_even_def)

subsection \<open>The near-tie distribution, evaluated\<close>

lemma near_tie_sort:
  "torch_sort_desc near_tie_probs = (near_tie_probs, [0, 1, 2, 3])"
  by (simp add: torch_sort_desc_def near_tie_probs_def upt_rec)

lemma near_tie_cumsum:
  "cumsum_f32 near_tie_probs = [1 / 4 + 1 / 2 ^ 25, 1 / 2, 3 / 4, 1]"
proof -
  have a: "round_f32 (1 / 4 + 1 / 2 ^ 25 + 1 / 4) = 1 / 2"
    using f32_tie_above_half by (simp add: algebra_simps)
  have b: "round_f32 (1 / 2 + 1 / 4) = 3 / 4" using f32_three_quarters by simp
  have c: "round_f32 (3 / 4 + (1 / 4 - 1 / 2 ^ 25)) = 1" using f32_tie_below_one by (simp add: algebra_simps)
  show ?thesis
    unfolding cumsum_f32_def near_tie_probs_def list.case cumsum_f32_from.simps a b c ..
qed

lemma near_tie_mask:
  "top_p_mask_in f32_arith near_tie_probs (1 / 4) = [False, False, True, True]"
proof -
  have s0: "round_f32 (1 / 4 + 1 / 2 ^ 25 - (1 / 4 + 1 / 2 ^ 25)) = 0" by (simp add: round_f32_def)
  have s1: "round_f32 (1 / 2 - 1 / 4) = 1 / 4" using f32_quarter by simp
  have s2: "round_f32 (3 / 4 - 1 / 4) = 1 / 2" using f32_half by simp
  have s3: "round_f32 (1 - (1 / 4 - 1 / 2 ^ 25)) = 3 / 4" using f32_tie_above_three_quarters by (simp add: algebra_simps)
  have c: "cumsum_op f32_arith near_tie_probs = [1 / 4 + 1 / 2 ^ 25, 1 / 2, 3 / 4, 1]"
    by (simp add: f32_arith_def near_tie_cumsum)
  have "top_p_mask_in f32_arith near_tie_probs (1 / 4) =
      [round_f32 (1 / 4 + 1 / 2 ^ 25 - (1 / 4 + 1 / 2 ^ 25)) > round_f32 (1 / 4),
       round_f32 (1 / 2 - 1 / 4) > round_f32 (1 / 4),
       round_f32 (3 / 4 - 1 / 4) > round_f32 (1 / 4),
       round_f32 (1 - (1 / 4 - 1 / 2 ^ 25)) > round_f32 (1 / 4)]"
    unfolding top_p_mask_in_def c by (simp add: f32_arith_def near_tie_probs_def)
  then show ?thesis unfolding s0 s1 s2 s3 f32_quarter by simp
qed

lemma near_tie_truncate:
  "top_p_truncate_in f32_arith near_tie_probs (1 / 4) = [1 / 4 + 1 / 2 ^ 25, 1 / 4, 0, 0]"
  unfolding top_p_truncate_in_def near_tie_mask by (simp add: near_tie_probs_def)

lemma near_tie_sum:
  "sum_op f32_arith [1 / 4 + 1 / 2 ^ 25, 1 / 4, 0, 0] = 1 / 2"
proof -
  have a: "round_f32 (1 / 4 + 1 / 2 ^ 25 + 1 / 4) = 1 / 2" using f32_tie_above_half by (simp add: algebra_simps)
  have "sum_op f32_arith [1 / 4 + 1 / 2 ^ 25, 1 / 4, 0, 0] =
      round_f32 (round_f32 (round_f32 (round_f32 (0 + (1 / 4 + 1 / 2 ^ 25)) + 1 / 4) + 0) + 0)"
    by (simp add: f32_arith_def)
  also have "\<dots> = 1 / 2" by (simp only: add_0 add_0_right f32_above_quarter a f32_half)
  finally show ?thesis .
qed

lemma near_tie_weights:
  "renormalize_in f32_arith [1 / 4 + 1 / 2 ^ 25, 1 / 4, 0, 0] = Inr [1 / 2 + 1 / 2 ^ 24, 1 / 2, 0, 0]"
proof -
  have d0: "round_f32 ((1 / 4 + 1 / 2 ^ 25) / (1 / 2)) = 1 / 2 + 1 / 2 ^ 24"
    using f32_above_half by (simp add: field_simps)
  have d1: "round_f32 (1 / 4 / (1 / 2)) = 1 / 2" using f32_half by simp
  have d2: "round_f32 (0 / (1 / 2)) = 0" by (simp add: round_f32_def)
  have "renormalize_in f32_arith [1 / 4 + 1 / 2 ^ 25, 1 / 4, 0, 0] =
      Inr [round_f32 ((1 / 4 + 1 / 2 ^ 25) / (1 / 2)), round_f32 (1 / 4 / (1 / 2)),
           round_f32 (0 / (1 / 2)), round_f32 (0 / (1 / 2))]"
    unfolding renormalize_in_def near_tie_sum Let_def by (simp add: f32_arith_def)
  then show ?thesis by (simp only: d0 d1 d2)
qed

lemma near_tie_draw: "counter_draw 3 [1 / 2 + 1 / 2 ^ 24, 1 / 2, 0, 0] = (1, 4)"
  by (simp add: counter_draw_def upt_rec eval_nat_numeral mod_Suc)

lemma near_tie_sample:
  "sample_top_p_in f32_arith counter_draw 3 near_tie_probs (1 / 4) = Inr (1, 4)"
proof -
  have "multinomial counter_draw 3 [1 / 2 + 1 / 2 ^ 24, 1 / 2, 0, 0]
      = Inr (counter_draw 3 [1 / 2 + 1 / 2 ^ 24, 1 / 2, 0, 0])"
    by (rule multinomial_Inr) simp_all
  then have mn: "multinomial counter_draw 3 [1 / 2 + 1 / 2 ^ 24, 1 / 2, 0, 0] = Inr (1, 4)"
    by (simp only: near_tie_draw)
  have "sample_top_p_in f32_arith counter_draw 3 near_tie_probs (1 / 4) =
      (case renormalize_in f32_arith (top_p_truncate_in f32_arith near_tie_probs (1 / 4)) of
         Inl e \<Rightarrow> Inl e
       | Inr ws \<Rightarrow>
           (case multinomial counter_draw 3 ws of
              Inl e \<Rightarrow> Inl e
            | Inr (next_token, g') \<Rightarrow> Inr ([0, 1, 2, 3] ! next_token, g')))"
    unfolding sample_top_p_in_def near_tie_sort by (simp only: prod.case Let_def)
  also have "\<dots> = Inr ([0, 1, 2, 3] ! 1, 4)"
    unfolding near_tie_truncate near_tie_weights by (simp only: sum.case mn prod.case)
  finally show ?thesis by simp
qed

lemma near_tie_argmax: "argmax near_tie_probs = Inr 0"
  by (simp add: argmax_def near_tie_probs_def)

section \<open>The claims\<close>

subsection \<open>Budget and greedy selection\<close>

text \<open>
  C9: when \<^verbatim>\<open>max_tokens_to_generate\<close> is zero or negative the body of the loop never
  runs (the loop hands back the variables as it found them), \<^verbatim>\<open>generated_tokens\<close> is
  still empty, and the concatenation of the empty list raises: the call fails instead of
  printing an empty generation.
\<close>

theorem no_budget_fails:
  assumes "max_tokens_to_generate \<le> 0"
  shows "decode_loop S (nat max_tokens_to_generate) (initial_state S prompt image_file_path g)
           = Inr (initial_state S prompt image_file_path g)
         \<and> generated_tokens (initial_state S prompt image_file_path g) = []
         \<and> test_inference S prompt image_file_path max_tokens_to_generate g = Inl CatEmpty"
  using assms by (simp add: test_inference_def initial_state_def torch_cat_def Let_def)

theorem no_budget_fails_witness:
  "test_inference scripted_env ''describe:'' ''image.png'' 0 0 = Inl CatEmpty
   \<and> test_inference scripted_env ''describe:'' ''image.png'' (- 4) 0 = Inl CatEmpty
   \<and> decode_loop scripted_env (nat 0) scripted_start = Inr scripted_start"
  using no_budget_fails [of 0 scripted_env "''describe:''" "''image.png''" 0]
    no_budget_fails [of "- 4" scripted_env "''describe:''" "''image.png''" 0]
  by (simp add: scripted_start_def)

text \<open>
  C5: without \<^verbatim>\<open>do_sample\<close> the token selected from a score vector is the position of
  its maximum, the lowest such position when the maximum occurs more than once; the
  scores \<open>[0.1, 0.9, 0.9]\<close> give token 1; and the selection does not depend on the state
  of the random generator, which it leaves untouched, so a second run on the same scores
  returns the same token.
\<close>

theorem greedy_first_argmax:
  assumes "\<not> do_sample S" "xs \<noteq> []"
  shows "(\<exists>i. select_next_token S g xs = Inr (i, g)
            \<and> select_next_token S g2 xs = Inr (i, g2)
            \<and> is_first_max xs i \<and> xs ! i = Max (set xs))
         \<and> select_next_token S g [1 / 10, 9 / 10, 9 / 10] = Inr (1, g)"
proof -
  from argmax_first_max[OF assms(2)] obtain i where i: "argmax xs = Inr i" "is_first_max xs i"
    by blast
  have "argmax [1 / 10, 9 / 10, 9 / 10] = Inr 1" by (simp add: argmax_def)
  then show ?thesis using i assms(1) is_first_max_Max[OF i(2)]
    by (simp add: select_next_token_def)
qed

theorem greedy_first_argmax_witness:
  "select_next_token scripted_env 0 [1 / 10, 9 / 10, 9 / 10] = Inr (1, 0)
   \<and> select_next_token scripted_env 5 [1 / 10, 9 / 10, 9 / 10] = Inr (1, 5)
   \<and> is_first_max [1 / 10, 9 / 10, 9 / 10] 1"
proof -
  have h1: "\<not> do_sample scripted_env" by (simp add: scripted_env_def)
  have h2: "[1 / 10, 9 / 10, 9 / 10] \<noteq> ([] :: real list)" by simp
  from greedy_first_argmax [OF h1 h2, of 0 5] obtain i where
    i: "select_next_token scripted_env 0 [1 / 10, 9 / 10, 9 / 10] = Inr (i, 0)"
       "select_next_token scripted_env 5 [1 / 10, 9 / 10, 9 / 10] = Inr (i, 5)"
       "is_first_max [1 / 10, 9 / 10, 9 / 10] i"
    by blast
  have "select_next_token scripted_env 0 [1 / 10, 9 / 10, 9 / 10] = Inr (1, 0)"
    by (simp add: select_next_token_def scripted_env_def argmax_def)
  with i(1) have "i = 1" by simp
  with i show ?thesis by simp
qed

subsection \<open>Worked examples of the sampler\<close>

lemma example_sort:
  "torch_sort_desc [1 / 10, 1 / 2, 1 / 5, 1 / 5] = ([1 / 2, 1 / 5, 1 / 5, 1 / 10], [1, 2, 3, 0])"
  by (simp add: torch_sort_desc_def upt_rec)

lemma example_truncate:
  "top_p_truncate [1 / 2, 1 / 5, 1 / 5, 1 / 10] (3 / 5) = [1 / 2, 1 / 5, 0, 0]"
  by (simp add: top_p_truncate_def top_p_mask_def cumsum_def)

lemma example_weights:
  "top_p_weights [1 / 10, 1 / 2, 1 / 5, 1 / 5] (3 / 5) = Inr [5 / 7, 2 / 7, 0, 0]"
  by (simp add: top_p_weights_def example_sort example_truncate renormalize_def)

lemma example_draw: "counter_draw 3 [5 / 7, 2 / 7, 0, 0] = (1, 4)"
  by (simp add: counter_draw_def upt_rec eval_nat_numeral mod_Suc)

lemma example_sample:
  "sample_top_p counter_draw 3 [1 / 10, 1 / 2, 1 / 5, 1 / 5] (3 / 5) = Inr (2, 4)"
  by (simp add: sample_top_p_unfold example_weights example_sort multinomial_def example_draw)

subsection \<open>The sampler\<close>

text \<open>
  C2: for a probability vector with non-negative entries and positive total mass and
  every \<open>top_p > 0\<close>, the truncation does not zero the first entry of the sorted vector,
  which is the largest probability; the truncated vector therefore has a strictly
  positive sum, and the division by that sum never meets zero: \<open>SamplingError\<close> is not
  reachable.
\<close>

theorem top_entry_never_zeroed:
  assumes "\<forall>x \<in> set probs. 0 \<le> x" "0 < sum_list probs" "0 < p"
  shows "\<not> top_p_mask (fst (torch_sort_desc probs)) p ! 0
         \<and> top_p_truncate (fst (torch_sort_desc probs)) p ! 0 = Max (set probs)
         \<and> 0 < Max (set probs)
         \<and> 0 < sum_list (top_p_truncate (fst (torch_sort_desc probs)) p)
         \<and> renormalize (top_p_truncate (fst (torch_sort_desc probs)) p) \<noteq> Inl SamplingError
         \<and> sample_top_p draw g probs p \<noteq> Inl SamplingError"
proof -
  let ?s = "fst (torch_sort_desc probs)"
  have p0: "0 \<le> p" using assms(3) by simp
  have ne: "probs \<noteq> []" using assms(2) by auto
  then have sne: "?s \<noteq> []" using sort_length(1)[of probs] by auto
  then have "0 < length ?s" by simp
  then have m: "\<not> top_p_mask ?s p ! 0" using p0 by (simp add: top_p_mask_nth)
  have h: "top_p_truncate ?s p ! 0 = Max (set probs)"
    using truncate_head[OF sne p0] sort_head_max[OF ne] by simp
  have mx: "0 < Max (set probs)" by (rule pos_sum_Max_pos[OF assms(2)])
  have pos: "0 < sum_list (top_p_truncate ?s p)" by (rule truncate_sum_pos[OF assms(1,2) p0])
  then have r: "renormalize (top_p_truncate ?s p) \<noteq> Inl SamplingError"
    by (simp add: renormalize_def)
  from sample_top_p_Inr[OF assms(1,2) p0, of draw g]
  have "sample_top_p draw g probs p \<noteq> Inl SamplingError" by auto
  with m h mx pos r show ?thesis by blast
qed

theorem top_entry_never_zeroed_witness:
  "top_p_truncate (fst (torch_sort_desc [1 / 10, 1 / 2, 1 / 5, 1 / 5])) (1 / 100) ! 0 = 1 / 2
   \<and> 0 < sum_list (top_p_truncate (fst (torch_sort_desc [1 / 10, 1 / 2, 1 / 5, 1 / 5])) (1 / 100))
   \<and> sample_top_p counter_draw 0 [1 / 10, 1 / 2, 1 / 5, 1 / 5] (1 / 100) \<noteq> Inl SamplingError"
proof -
  have h1: "\<forall>x \<in> set [1 / 10, 1 / 2, 1 / 5, 1 / 5 :: real]. 0 \<le> x" by simp
  have h2: "0 < sum_list [1 / 10, 1 / 2, 1 / 5, 1 / 5 :: real]" by simp
  have h3: "(0::real) < 1 / 100" by simp
  have "Max (set [1 / 10, 1 / 2, 1 / 5, 1 / 5 :: real]) = 1 / 2" by simp
  with top_entry_never_zeroed [OF h1 h2 h3, of counter_draw 0] show ?thesis by simp
qed



text \<open>
  Below zero, outside the sampling configuration, the mask is true everywhere: every entry
  is zeroed and the sampler fails.
\<close>

lemma negative_top_p_zeroes_all:
  assumes "\<forall>x \<in> set probs. 0 \<le> x" "p < 0"
  shows "top_p_truncate (fst (torch_sort_desc probs)) p = replicate (length probs) 0
         \<and> sample_top_p draw g probs p = Inl SamplingError"
proof -
  let ?s = "fst (torch_sort_desc probs)"
  have snn: "\<forall>x \<in> set ?s. 0 \<le> x" using assms(1) by (simp add: sort_set)
  have tr: "top_p_truncate ?s p = replicate (length probs) 0"
  proof (rule nth_equalityI)
    show "length (top_p_truncate ?s p) = length (replicate (length probs) (0::real))"
      by (simp add: top_p_truncate_length sort_length)
  next
    fix i assume "i < length (top_p_truncate ?s p)"
    then have il: "i < length ?s" by (simp add: top_p_truncate_length)
    have "p < sum_list (take i ?s)" using sum_list_take_nonneg[OF snn, of i] assms(2) by simp
    then show "top_p_truncate ?s p ! i = replicate (length probs) 0 ! i"
      using il by (simp add: top_p_truncate_nth sort_length)
  qed
  have "top_p_weights probs p = Inl SamplingError"
    by (simp add: top_p_weights_def tr renormalize_def sum_list_replicate)
  then show ?thesis using tr by (simp add: sample_top_p_unfold)
qed

text \<open>
  C7, as amended: for every probability distribution whose maximum is attained at one
  position \<open>m\<close> only, and every \<open>top_p\<close> that the comparison sees as a number from 0 up to,
  but excluding, \<open>(1 - u) (1 - 2 \<gamma>)\<close> times that maximum (\<open>u\<close> the relative rounding error
  of one subtraction or division, \<open>\<gamma>\<close> that of the running sums and of the sum; both are 0
  in exact arithmetic, where the bound is the maximum itself), the truncation keeps the
  entry of \<open>m\<close> and zeroes every other one, the only weight above zero is the one at rank
  0, every draw that honours the library's contract returns token \<open>m\<close>, and \<open>m\<close> is what the
  greedy strategy returns on the same vector.
\<close>

theorem small_top_p_keeps_top_token:
  assumes ok: "arith_ok u \<gamma> (length probs) A"
    and nn: "\<forall>x \<in> set probs. 0 \<le> x"
    and m: "m < length probs"
    and uniq: "\<forall>j < length probs. j \<noteq> m \<longrightarrow> probs ! j < probs ! m"
    and p0: "0 \<le> scalar_op A p"
    and pm: "scalar_op A p < (1 - u) * (1 - 2 * \<gamma>) * probs ! m"
    and dok: "draw_ok draw"
  shows "top_p_truncate_in A (fst (torch_sort_desc probs)) p
           = probs ! m # replicate (length probs - 1) 0
         \<and> (\<exists>w. 0 < w \<and> renormalize_in A (top_p_truncate_in A (fst (torch_sort_desc probs)) p)
                          = Inr (w # replicate (length probs - 1) 0))
         \<and> (\<exists>g'. sample_top_p_in A draw g probs p = Inr (m, g'))
         \<and> argmax probs = Inr m"
proof -
  let ?s = "fst (torch_sort_desc probs)"
  let ?idx = "snd (torch_sort_desc probs)"
  let ?n = "length probs"
  let ?c = "cumsum_op A ?s"
  let ?p = "scalar_op A p"
  from ok have u: "0 \<le> u" "u < 1" and gm: "0 \<le> \<gamma>" "\<gamma> < 1"
    and clen: "length ?c = length ?s"
    and sub: "\<And>a b. \<bar>sub_op A a b - (a - b)\<bar> \<le> u * \<bar>a - b\<bar>"
    and dv: "\<And>a b. \<bar>div_op A a b - a / b\<bar> \<le> u * \<bar>a / b\<bar>"
    unfolding arith_ok_def by blast+
  have ne: "probs \<noteq> []" using m by auto
  have n: "0 < ?n" using ne by simp
  have len_s: "length ?s = ?n" by (rule sort_length(1))
  have sne: "?s \<noteq> []" using ne len_s by auto
  have snn: "\<forall>x \<in> set ?s. 0 \<le> x" using nn by (simp add: sort_set)
  from ok sne have c0: "?c ! 0 = ?s ! 0" unfolding arith_ok_def by blast
  have clow: "(1 - \<gamma>) * sum_list (take (Suc k) ?s) \<le> ?c ! k" if "k < length ?s" for k
  proof -
    have "length ?s \<le> ?n \<and> (\<forall>x \<in> set ?s. 0 \<le> x) \<and> k < length ?s"
      using snn that len_s by simp
    with ok show ?thesis unfolding arith_ok_def by blast
  qed
  have fm: "is_first_max probs m"
    unfolding is_first_max_def
  proof (intro conjI allI impI)
    show "m < ?n" by (rule m)
  next
    fix j assume "j < ?n"
    then show "probs ! j \<le> probs ! m" using uniq by (cases "j = m") (auto intro: less_imp_le)
  next
    fix j assume "j < m"
    then show "probs ! j < probs ! m" using uniq m by simp
  qed
  from argmax_first_max[OF ne] obtain i where i: "argmax probs = Inr i" "is_first_max probs i"
    by blast
  have am: "argmax probs = Inr m" using i is_first_max_unique[OF i(2) fm] by simp
  have s0: "?s ! 0 = probs ! m" using sort_head_max[OF ne] is_first_max_Max[OF fm] by simp
  have idx0: "?idx ! 0 = m"
  proof (rule ccontr)
    assume neq: "?idx ! 0 \<noteq> m"
    have "?idx ! 0 < ?n" by (rule sort_idx_bound[OF n])
    then have "probs ! (?idx ! 0) < probs ! m" using uniq neq by simp
    moreover have "probs ! (?idx ! 0) = probs ! m" using sort_gather[OF n] s0 by simp
    ultimately show False by simp
  qed
  have mnn: "0 \<le> probs ! m" using nn m by simp
  have u1: "0 < 1 - u" using u by simp
  have margin: "0 < (1 - 2 * \<gamma>) * probs ! m"
  proof (rule ccontr)
    assume "\<not> 0 < (1 - 2 * \<gamma>) * probs ! m"
    then have "(1 - 2 * \<gamma>) * probs ! m \<le> 0" by simp
    then have "(1 - u) * ((1 - 2 * \<gamma>) * probs ! m) \<le> 0"
      using u1 by (simp add: mult_le_0_iff)
    with p0 pm show False by (simp add: mult.assoc)
  qed
  have pos: "0 < probs ! m"
  proof (rule ccontr)
    assume "\<not> 0 < probs ! m"
    with mnn have "probs ! m = 0" by simp
    with margin show False by simp
  qed
  have take1: "sum_list (take 1 ?s) = ?s ! 0" using n len_s by (cases ?s) simp_all
  have tr: "top_p_truncate_in A ?s p = probs ! m # replicate (?n - 1) 0"
  proof (rule nth_equalityI)
    show "length (top_p_truncate_in A ?s p) = length (probs ! m # replicate (?n - 1) 0)"
      using n by (simp add: top_p_truncate_in_length[OF clen] len_s)
  next
    fix i assume "i < length (top_p_truncate_in A ?s p)"
    then have il: "i < length ?s" by (simp add: top_p_truncate_in_length[OF clen])
    show "top_p_truncate_in A ?s p ! i = (probs ! m # replicate (?n - 1) 0) ! i"
    proof (cases i)
      case 0
      have "\<bar>sub_op A (?s ! 0) (?s ! 0) - (?s ! 0 - ?s ! 0)\<bar> \<le> u * \<bar>?s ! 0 - ?s ! 0\<bar>"
        by (rule sub)
      then have "sub_op A (?c ! 0) (?s ! 0) = 0" using c0 by simp
      then show ?thesis using 0 il p0 s0 by (simp add: top_p_truncate_in_nth[OF clen])
    next
      case (Suc k)
      then have "1 \<le> i" by simp
      from sum_list_take_mono[OF snn this] have "?s ! 0 \<le> sum_list (take i ?s)"
        using take1 by simp
      moreover have "sum_list (take (Suc i) ?s) = sum_list (take i ?s) + ?s ! i"
        using il by (simp add: take_Suc_conv_app_nth)
      ultimately have P: "probs ! m + ?s ! i \<le> sum_list (take (Suc i) ?s)" using s0 by simp
      have si: "?s ! i \<le> probs ! m" "0 \<le> ?s ! i"
        using sort_descending[of 0 i probs] il len_s s0 snn by simp_all
      have "(1 - \<gamma>) * (probs ! m + ?s ! i) \<le> (1 - \<gamma>) * sum_list (take (Suc i) ?s)"
        using P gm by (intro mult_left_mono) simp_all
      also have "\<dots> \<le> ?c ! i" by (rule clow[OF il])
      finally have "(1 - \<gamma>) * (probs ! m + ?s ! i) - ?s ! i \<le> ?c ! i - ?s ! i" by simp
      moreover have "(1 - 2 * \<gamma>) * probs ! m \<le> (1 - \<gamma>) * (probs ! m + ?s ! i) - ?s ! i"
      proof -
        have "\<gamma> * ?s ! i \<le> \<gamma> * probs ! m" using si(1) gm(1) by (rule mult_left_mono)
        then show ?thesis by (simp add: algebra_simps)
      qed
      ultimately have d: "(1 - 2 * \<gamma>) * probs ! m \<le> ?c ! i - ?s ! i" by simp
      then have dpos: "0 \<le> ?c ! i - ?s ! i" using margin by simp
      have "(1 - u) * ((1 - 2 * \<gamma>) * probs ! m) \<le> (1 - u) * (?c ! i - ?s ! i)"
        using d u1 by (intro mult_left_mono) simp_all
      also have "\<dots> \<le> sub_op A (?c ! i) (?s ! i)"
        by (rule sub_op_lower[OF sub dpos])
      finally have "?p < sub_op A (?c ! i) (?s ! i)" using pm by (simp add: mult.assoc)
      then show ?thesis using il Suc len_s by (simp add: top_p_truncate_in_nth[OF clen])
    qed
  qed
  let ?t = "probs ! m # replicate (?n - 1) (0::real)"
  let ?T = "sum_op A ?t"
  have tnn: "\<forall>x \<in> set ?t. 0 \<le> x" using mnn by auto
  have "length ?t \<le> ?n \<and> (\<forall>x \<in> set ?t. 0 \<le> x)" using tnn n by simp
  with ok have "(1 - \<gamma>) * sum_list ?t \<le> ?T" unfolding arith_ok_def by blast
  moreover have "sum_list ?t = probs ! m" by (simp add: sum_list_replicate)
  moreover have "0 < (1 - \<gamma>) * probs ! m" using gm pos by simp
  ultimately have Tpos: "0 < ?T" by simp
  let ?w = "div_op A (probs ! m) ?T"
  have "\<bar>div_op A 0 ?T - 0 / ?T\<bar> \<le> u * \<bar>0 / ?T\<bar>" by (rule dv)
  then have d0: "div_op A 0 ?T = 0" by simp
  have qpos: "0 < probs ! m / ?T" using pos Tpos by simp
  have "(1 - u) * (probs ! m / ?T) \<le> ?w"
    by (rule sub_op_lower[OF dv]) (use qpos in simp)
  moreover have "0 < (1 - u) * (probs ! m / ?T)" using u1 qpos by (rule mult_pos_pos)
  ultimately have wpos: "0 < ?w" by simp
  let ?ws = "?w # replicate (?n - 1) (0::real)"
  have rn: "renormalize_in A (top_p_truncate_in A ?s p) = Inr ?ws"
    unfolding tr using Tpos d0 by (simp add: renormalize_in_def Let_def)
  have wnn: "\<forall>x \<in> set ?ws. 0 \<le> x" using wpos by auto
  have wsum: "0 < sum_list ?ws" using wpos by (simp add: sum_list_replicate)
  have mn: "multinomial draw g ?ws = Inr (draw g ?ws)" by (rule multinomial_Inr[OF wnn wsum])
  have "(\<forall>x \<in> set ?ws. 0 \<le> x) \<and> 0 < sum_list ?ws" using wnn wsum by blast
  with dok have r: "fst (draw g ?ws) < length ?ws" "0 < ?ws ! fst (draw g ?ws)"
    unfolding draw_ok_def by blast+
  have r0: "fst (draw g ?ws) = 0"
  proof (rule ccontr)
    assume "fst (draw g ?ws) \<noteq> 0"
    then obtain k where k: "fst (draw g ?ws) = Suc k" by (cases "fst (draw g ?ws)") auto
    with r(1) have "?ws ! fst (draw g ?ws) = 0" by simp
    with r(2) show False by simp
  qed
  have "sample_top_p_in A draw g probs p = Inr (m, snd (draw g ?ws))"
    using rn mn r0 idx0 by (simp add: sample_top_p_in_def split_beta)
  with tr rn wpos am show ?thesis by blast
qed

text \<open>
  Without the two bounds the statement fails. In 32-bit arithmetic the running sum of the
  two largest entries of the near-tie distribution rounds down to one half, so with
  \<open>top_p\<close> one quarter, strictly below the maximum, the second entry survives the
  truncation and a draw returns token 1, not token 0. And with a \<open>top_p\<close> below zero every
  entry is zeroed and the sampler fails.
\<close>

theorem small_top_p_counterexample:
  "top_p_truncate_in f32_arith (fst (torch_sort_desc near_tie_probs)) (1 / 4)
     = [1 / 4 + 1 / 2 ^ 25, 1 / 4, 0, 0]
   \<and> sample_top_p_in f32_arith counter_draw 3 near_tie_probs (1 / 4) = Inr (1, 4)
   \<and> argmax near_tie_probs = Inr 0
   \<and> 1 / 4 < near_tie_probs ! 0
   \<and> top_p_truncate (fst (torch_sort_desc [1 / 5, 1 / 2, 3 / 10])) (- 1) = [0, 0, 0]
   \<and> sample_top_p counter_draw 0 [1 / 5, 1 / 2, 3 / 10] (- 1) = Inl SamplingError"
proof -
  have h: "\<forall>x \<in> set [1 / 5, 1 / 2, 3 / 10 :: real]. 0 \<le> x" by simp
  have n: "(- 1 :: real) < 0" by simp
  from negative_top_p_zeroes_all[OF h n, of counter_draw 0]
  have "top_p_truncate (fst (torch_sort_desc [1 / 5, 1 / 2, 3 / 10])) (- 1) = [0, 0, 0]"
    "sample_top_p counter_draw 0 [1 / 5, 1 / 2, 3 / 10] (- 1) = Inl SamplingError"
    by (simp_all add: numeral_3_eq_3)
  moreover have "1 / 4 < near_tie_probs ! 0" by (simp add: near_tie_probs_def)
  ultimately show ?thesis
    by (simp add: near_tie_sort near_tie_truncate near_tie_sample near_tie_argmax)
qed

theorem small_top_p_keeps_top_token_witness:
  "top_p_truncate_in f32_arith near_tie_probs (1 / 5) = [1 / 4 + 1 / 2 ^ 25, 0, 0, 0]
   \<and> (\<exists>g'. sample_top_p_in f32_arith counter_draw 3 near_tie_probs (1 / 5) = Inr (0, g'))
   \<and> argmax near_tie_probs = Inr 0
   \<and> top_p_truncate (fst (torch_sort_desc [1 / 5, 1 / 2, 3 / 10])) (2 / 5) = [1 / 2, 0, 0]
   \<and> (\<exists>g'. sample_top_p counter_draw 0 [1 / 5, 1 / 2, 3 / 10] (2 / 5) = Inr (1, g'))"
proof -
  have len: "length near_tie_probs = 4" by (simp add: near_tie_probs_def)
  have ok: "arith_ok unit_f32 (real 4 * unit_f32) (length near_tie_probs) f32_arith"
    unfolding len by (rule arith_ok_f32) simp
  have nn: "\<forall>x \<in> set near_tie_probs. 0 \<le> x" by (simp add: near_tie_probs_def)
  have m: "0 < length near_tie_probs" by (simp add: len)
  have uniq: "\<forall>j < length near_tie_probs. j \<noteq> 0 \<longrightarrow> near_tie_probs ! j < near_tie_probs ! 0"
    by (auto simp: near_tie_probs_def less_Suc_eq)
  have sc: "scalar_op f32_arith (1 / 5) = round_f32 (1 / 5)" by (simp add: f32_arith_def)
  have p0: "0 \<le> scalar_op f32_arith (1 / 5)" unfolding sc by (rule round_f32_nonneg) simp
  have "round_f32 (1 / 5) \<le> (1 + unit_f32) * (1 / 5)" by (rule round_f32_upper) simp
  also have "\<dots> < (1 - unit_f32) * (1 - 2 * (real 4 * unit_f32)) * near_tie_probs ! 0"
    by (simp add: unit_f32_def near_tie_probs_def)
  finally have pm: "scalar_op f32_arith (1 / 5)
      < (1 - unit_f32) * (1 - 2 * (real 4 * unit_f32)) * near_tie_probs ! 0"
    unfolding sc .
  from small_top_p_keeps_top_token [OF ok nn m uniq p0 pm draw_ok_counter_draw, of 3]
  have rounded: "top_p_truncate_in f32_arith near_tie_probs (1 / 5) = [1 / 4 + 1 / 2 ^ 25, 0, 0, 0]
      \<and> (\<exists>g'. sample_top_p_in f32_arith counter_draw 3 near_tie_probs (1 / 5) = Inr (0, g'))
      \<and> argmax near_tie_probs = Inr 0"
    by (simp add: near_tie_sort) (simp add: near_tie_probs_def numeral_3_eq_3)
  have eok: "arith_ok 0 0 (length [1 / 5, 1 / 2, 3 / 10 :: real]) exact_arith"
    by (rule arith_ok_exact) simp_all
  have e1: "\<forall>x \<in> set [1 / 5, 1 / 2, 3 / 10 :: real]. 0 \<le> x" by simp
  have e2: "1 < length [1 / 5, 1 / 2, 3 / 10 :: real]" by simp
  have e3: "\<forall>j < length [1 / 5, 1 / 2, 3 / 10 :: real]. j \<noteq> 1 \<longrightarrow>
      [1 / 5, 1 / 2, 3 / 10 :: real] ! j < [1 / 5, 1 / 2, 3 / 10] ! 1"
    by (auto simp: less_Suc_eq)
  have e4: "0 \<le> scalar_op exact_arith (2 / 5)" by (simp add: exact_arith_def)
  have e5: "scalar_op exact_arith (2 / 5) < (1 - 0) * (1 - 2 * 0) * [1 / 5, 1 / 2, 3 / 10] ! 1"
    by (simp add: exact_arith_def)
  from small_top_p_keeps_top_token [OF eok e1 e2 e3 e4 e5 draw_ok_counter_draw, of 0]
  have exact: "top_p_truncate (fst (torch_sort_desc [1 / 5, 1 / 2, 3 / 10])) (2 / 5) = [1 / 2, 0, 0]
      \<and> (\<exists>g'. sample_top_p counter_draw 0 [1 / 5, 1 / 2, 3 / 10] (2 / 5) = Inr (1, g'))"
    by (simp add: exact_truncate exact_sample_top_p numeral_2_eq_2)
  from rounded exact show ?thesis by blast
qed

text \<open>
  In exact arithmetic, for a probability distribution and every \<open>top_p\<close> in \<open>(0, 1]\<close>, the
  truncated and renormalized weights exist (the division is defined) and sum to exactly
  1. How far the sum of the rounded weights is from 1 depends on the order in which the
  library accumulates a sum, which the program does not determine.
\<close>

lemma renormalized_sums_to_one:
  assumes "\<forall>x \<in> set probs. 0 \<le> x" "sum_list probs = 1" "0 < p" "p \<le> 1"
  shows "\<exists>ws. top_p_weights probs p = Inr ws \<and> sum_list ws = 1 \<and> (\<forall>w \<in> set ws. 0 \<le> w)"
proof -
  have "0 < sum_list probs" using assms(2) by simp
  moreover have "0 \<le> p" using assms(3) by simp
  ultimately show ?thesis using top_p_weights_Inr[OF assms(1), of p] by blast
qed

lemma renormalized_sums_to_one_example:
  "top_p_weights [1 / 10, 1 / 2, 1 / 5, 1 / 5] (3 / 5) = Inr [5 / 7, 2 / 7, 0, 0]
   \<and> sum_list [5 / 7, 2 / 7, 0, 0 :: real] = 1"
proof -
  have h1: "\<forall>x \<in> set [1 / 10, 1 / 2, 1 / 5, 1 / 5 :: real]. 0 \<le> x" by simp
  have h2: "sum_list [1 / 10, 1 / 2, 1 / 5, 1 / 5 :: real] = 1" by simp
  have h3: "(0::real) < 3 / 5" by simp
  have h4: "(3 / 5 :: real) \<le> 1" by simp
  from renormalized_sums_to_one [OF h1 h2 h3 h4] obtain ws where
    "top_p_weights [1 / 10, 1 / 2, 1 / 5, 1 / 5] (3 / 5) = Inr ws" "sum_list ws = 1"
    by blast
  then show ?thesis by (simp add: example_weights)
qed

text \<open>
  C10: for a probability vector of length \<open>n\<close> and every \<open>top_p\<close> in \<open>(0, 1]\<close> the sampler
  returns a token; the token is the entry of the sort's permutation at the drawn rank, it
  is a valid position of the input vector (below \<open>n\<close>), and the drawn rank has non-zero
  weight in the truncated distribution.
\<close>

theorem sampled_token_valid:
  assumes "\<forall>x \<in> set probs. 0 \<le> x" "0 < sum_list probs" "0 < p" "p \<le> 1" "draw_ok draw"
  shows "\<exists>tok g' ws r. sample_top_p draw g probs p = Inr (tok, g')
           \<and> tok < length probs
           \<and> top_p_weights probs p = Inr ws
           \<and> r < length probs \<and> tok = snd (torch_sort_desc probs) ! r \<and> 0 < ws ! r"
proof -
  have p0: "0 \<le> p" using assms(3) by simp
  from top_p_weights_Inr[OF assms(1,2) p0] obtain ws where
    ws: "top_p_weights probs p = Inr ws" "length ws = length probs"
      "\<forall>w \<in> set ws. 0 \<le> w" "sum_list ws = 1"
    by blast
  from sample_top_p_Inr[OF assms(1,2) p0, of draw g] ws(1) have
    s: "sample_top_p draw g probs p =
          Inr (snd (torch_sort_desc probs) ! fst (draw g ws), snd (draw g ws))"
    by simp
  have "(\<forall>w \<in> set ws. 0 \<le> w) \<and> 0 < sum_list ws" using ws(3,4) by simp
  with assms(5) have r: "fst (draw g ws) < length ws" "0 < ws ! fst (draw g ws)"
    unfolding draw_ok_def by blast+
  then have "snd (torch_sort_desc probs) ! fst (draw g ws) < length probs"
    using ws(2) by (simp add: sort_idx_bound)
  with s ws(1,2) r show ?thesis by auto
qed

theorem sampled_token_valid_witness:
  "sample_top_p counter_draw 3 [1 / 10, 1 / 2, 1 / 5, 1 / 5] (3 / 5) = Inr (2, 4)
   \<and> (2::nat) < length [1 / 10, 1 / 2, 1 / 5, 1 / 5 :: real]
   \<and> (2::nat) = snd (torch_sort_desc [1 / 10, 1 / 2, 1 / 5, 1 / 5]) ! 1
   \<and> (0::real) < [5 / 7, 2 / 7, 0, 0] ! 1"
proof -
  have h1: "\<forall>x \<in> set [1 / 10, 1 / 2, 1 / 5, 1 / 5 :: real]. 0 \<le> x" by simp
  have h2: "0 < sum_list [1 / 10, 1 / 2, 1 / 5, 1 / 5 :: real]" by simp
  have h3: "(0::real) < 3 / 5" by simp
  have h4: "(3 / 5 :: real) \<le> 1" by simp
  from sampled_token_valid [OF h1 h2 h3 h4 draw_ok_counter_draw, of 3] obtain tok g' where
    t: "sample_top_p counter_draw 3 [1 / 10, 1 / 2, 1 / 5, 1 / 5] (3 / 5) = Inr (tok, g')"
       "tok < length [1 / 10, 1 / 2, 1 / 5, 1 / 5 :: real]"
    by blast
  from t(1) have "tok = 2" "g' = 4" by (simp_all add: example_sample)
  with t show ?thesis by (simp add: example_sort)
qed

subsection \<open>The scripted run, evaluated\<close>

lemma scripted_start_eq:
  "scripted_start =
     \<lparr>input_ids = [7, 8], attention_mask = [1, 1], pixel_values = (),
      kv_cache = 0, generated_tokens = [], rng = 0\<rparr>"
  by (simp add: scripted_start_def initial_state_def get_model_inputs_def scripted_env_def)

lemma scripted_run_2: "decode_loop scripted_env 2 scripted_start = Inr scripted_after_2"
  by (simp add: eval_nat_numeral decode_step_def scripted_env_def scripted_start_eq
      scripted_after_2_def scripted_model_def last_position_def select_next_token_def
      argmax_def Let_def)

lemma scripted_run_3: "decode_loop scripted_env 3 scripted_start = Inr scripted_after_3"
  by (simp add: eval_nat_numeral decode_step_def scripted_env_def scripted_start_eq
      scripted_after_3_def scripted_model_def last_position_def select_next_token_def
      argmax_def Let_def)

lemma scripted_run_5: "decode_loop scripted_env 5 scripted_start = Inr scripted_after_3"
  by (simp add: eval_nat_numeral decode_step_def scripted_env_def scripted_start_eq
      scripted_after_3_def scripted_model_def last_position_def select_next_token_def
      argmax_def Let_def)

lemma scripted_inference:
  "test_inference scripted_env ''describe:'' ''image.png'' 5 0 = Inr ([2, 1, 3], ''describe:xx'')"
  using scripted_run_5
  by (simp add: test_inference_def scripted_start_def scripted_after_3_def torch_cat_def)
     (simp add: scripted_env_def)

lemma model_ok_scripted: "model_ok scripted_env"
  by (simp add: model_ok_def scripted_env_def scripted_model_def Let_def)

subsection \<open>The loop\<close>

text \<open>
  C1, as amended: in every run and for every step \<open>k\<close> from 1 up to the stopping step, the
  attention mask after step \<open>k\<close> has length \<open>promptLength + k\<close> when the token sampled at
  step \<open>k\<close> is not the end-of-sequence token, and \<open>promptLength + k - 1\<close> when it is: the
  step that stops the run on the end-of-sequence token leaves the mask as it was. The
  variables after step \<open>k\<close> are those of the same run with a budget of \<open>k\<close>.
\<close>

theorem mask_length_after_step:
  assumes "decode_loop S n st = Inr st_end"
    and "1 \<le> k" and "k \<le> length (new_tokens st st_end)"
  shows "\<exists>stk. decode_loop S k st = Inr stk
           \<and> new_tokens st stk = take k (new_tokens st st_end)
           \<and> length (attention_mask stk) =
               length (attention_mask st)
               + (if new_tokens st st_end ! (k - 1) = eos_token_id S then k - 1 else k)"
proof -
  let ?e = "eos_token_id S"
  from decode_loop_shape[OF assms(1)] obtain new where
    new: "generated_tokens st_end = generated_tokens st @ new" by blast
  then have nt: "new_tokens st st_end = new" by (rule new_tokens_append)
  then have k: "k \<le> length new" using assms(3) by simp
  from decode_loop_prefix[OF assms(1) new k] obtain stk where
    stk: "decode_loop S k st = Inr stk" "generated_tokens stk = generated_tokens st @ take k new"
    by blast
  from decode_loop_shape[OF stk(1)] obtain new' where
    new': "generated_tokens stk = generated_tokens st @ new'"
      "\<forall>i. Suc i < length new' \<longrightarrow> new' ! i \<noteq> ?e"
      "attention_mask stk = attention_mask st @ replicate (length (filter (\<lambda>t. t \<noteq> ?e) new')) 1"
    by blast
  have eq: "new' = take k new" using new'(1) stk(2) by simp
  have len: "length new' = k" using eq k by simp
  have ne: "new' \<noteq> []" using len assms(2) by auto
  have "last new' = new' ! (k - 1)" using ne len by (simp add: last_conv_nth)
  also have "\<dots> = new ! (k - 1)" using eq assms(2) by simp
  finally have last: "last new' = new ! (k - 1)" .
  have "length (filter (\<lambda>t. t \<noteq> ?e) new') = (if new ! (k - 1) = ?e then k - 1 else k)"
    using filter_all_but_last[OF new'(2) ne] last len by simp
  then have "length (attention_mask stk) =
      length (attention_mask st) + (if new ! (k - 1) = ?e then k - 1 else k)"
    using new'(3) by simp
  moreover have "new_tokens st stk = take k new" using stk(2) by (rule new_tokens_append)
  ultimately show ?thesis using stk(1) nt by auto
qed

text \<open>
  The claim as it was stated asks for \<open>promptLength + k\<close> on the stopping step too. In the
  scripted run the third step samples the end-of-sequence token and stops; the mask then
  has four entries, not \<open>2 + 3\<close>.
\<close>

theorem mask_length_counterexample:
  "decode_loop scripted_env 3 scripted_start = Inr scripted_after_3
   \<and> length (new_tokens scripted_start scripted_after_3) = 3
   \<and> length (attention_mask scripted_after_3) \<noteq> length (attention_mask scripted_start) + 3"
  by (simp add: scripted_run_3) (simp add: scripted_start_eq scripted_after_3_def new_tokens_def)

theorem mask_length_after_step_witness:
  "decode_loop scripted_env 3 scripted_start = Inr scripted_after_3
   \<and> length (attention_mask scripted_after_3) = length (attention_mask scripted_start) + 2
   \<and> decode_loop scripted_env 2 scripted_start = Inr scripted_after_2
   \<and> length (attention_mask scripted_after_2) = length (attention_mask scripted_start) + 2"
proof -
  have nt: "new_tokens scripted_start scripted_after_3 = [2, 1, 3]"
    by (simp add: new_tokens_def scripted_start_eq scripted_after_3_def)
  have e: "eos_token_id scripted_env = 3" by (simp add: scripted_env_def)
  have h3: "(1::nat) \<le> 3" "3 \<le> length (new_tokens scripted_start scripted_after_3)"
    by (simp_all add: nt)
  have h2: "(1::nat) \<le> 2" "2 \<le> length (new_tokens scripted_start scripted_after_3)"
    by (simp_all add: nt)
  from mask_length_after_step [OF scripted_run_5 h3] have
    "length (attention_mask scripted_after_3) = length (attention_mask scripted_start) + 2"
    by (auto simp: nt e scripted_run_3)
  moreover from mask_length_after_step [OF scripted_run_5 h2] have
    "length (attention_mask scripted_after_2) = length (attention_mask scripted_start) + 2"
    by (auto simp: nt e scripted_run_2)
  ultimately show ?thesis by (simp add: scripted_run_3 scripted_run_2)
qed

text \<open>
  C3: in every run that returns, the loop stops at a step \<open>k\<close> below the budget exactly when
  the token sampled at step \<open>k\<close> is the end-of-sequence token; the returned sequence then
  has length exactly \<open>k\<close> and ends with that token, which was appended before the test.
\<close>

theorem eos_stops_early:
  assumes "test_inference S prompt image_file_path max_tokens_to_generate g = Inr (tokens, text)"
  shows "tokens \<noteq> [] \<and> length tokens \<le> nat max_tokens_to_generate
         \<and> (\<forall>k. 1 \<le> k \<and> k \<le> length tokens \<and> k < nat max_tokens_to_generate \<longrightarrow>
               (length tokens = k \<longleftrightarrow> tokens ! (k - 1) = eos_token_id S))
         \<and> (length tokens < nat max_tokens_to_generate \<longrightarrow> last tokens = eos_token_id S)"
proof -
  let ?st0 = "initial_state S prompt image_file_path g"
  let ?n = "nat max_tokens_to_generate"
  from assms obtain st' where
    run: "decode_loop S ?n ?st0 = Inr st'" and cat: "torch_cat (generated_tokens st') = Inr tokens"
    by (auto simp: test_inference_def split: sum.splits)
  from cat have tk: "tokens = generated_tokens st'" "tokens \<noteq> []"
    by (auto simp: torch_cat_def split: if_splits)
  have g0: "generated_tokens ?st0 = []" by (simp add: initial_state_def Let_def)
  from decode_loop_shape[OF run] g0 tk(1) have
    len: "length tokens \<le> ?n"
    and inner: "\<forall>i. Suc i < length tokens \<longrightarrow> tokens ! i \<noteq> eos_token_id S"
    and early: "length tokens < ?n \<longrightarrow> last tokens = eos_token_id S"
    by auto
  have "length tokens = k \<longleftrightarrow> tokens ! (k - 1) = eos_token_id S"
    if k: "1 \<le> k \<and> k \<le> length tokens \<and> k < ?n" for k
  proof
    assume "length tokens = k"
    then show "tokens ! (k - 1) = eos_token_id S"
      using early k tk(2) by (simp add: last_conv_nth)
  next
    assume eos: "tokens ! (k - 1) = eos_token_id S"
    show "length tokens = k"
    proof (rule ccontr)
      assume "length tokens \<noteq> k"
      then have "Suc (k - 1) < length tokens" using k by simp
      with inner eos show False by blast
    qed
  qed
  with tk(2) len early show ?thesis by blast
qed

theorem eos_stops_early_witness:
  "test_inference scripted_env ''describe:'' ''image.png'' 5 0 = Inr ([2, 1, 3], ''describe:xx'')
   \<and> length [2, 1, 3 :: nat] \<le> nat 5
   \<and> (length [2, 1, 3 :: nat] = 3 \<longleftrightarrow> [2, 1, 3] ! (3 - 1) = eos_token_id scripted_env)
   \<and> last [2, 1, 3] = eos_token_id scripted_env"
proof -
  have "(1::nat) \<le> 3 \<and> 3 \<le> length [2, 1, 3 :: nat] \<and> 3 < nat 5" by simp
  with eos_stops_early [OF scripted_inference] show ?thesis
    by (simp add: scripted_inference)
qed

text \<open>
  C4: the loop makes at most \<^verbatim>\<open>max_tokens_to_generate\<close> passes and then returns, also when
  the end-of-sequence token is never sampled; with a model that answers, using up the
  budget is not an error, and the sequence generated then has exactly that many tokens.
\<close>

theorem budget_bounds_loop:
  assumes "model_ok S" 
    and "do_sample S \<longrightarrow> temperature S \<noteq> 0 \<and> 0 \<le> top_p S"
    and "input_ids st \<noteq> []"
  shows "\<exists>st'. decode_loop S n st = Inr st'
           \<and> length (new_tokens st st') \<le> n
           \<and> (eos_token_id S \<notin> set (new_tokens st st') \<longrightarrow> length (new_tokens st st') = n)"
proof -
  from decode_loop_total[OF assms] obtain st' where run: "decode_loop S n st = Inr st'"
    by blast
  from decode_loop_shape[OF run] obtain new where
    new: "generated_tokens st' = generated_tokens st @ new" "length new \<le> n"
      "length new < n \<longrightarrow> new \<noteq> [] \<and> last new = eos_token_id S"
    by blast
  have nt: "new_tokens st st' = new" using new(1) by (rule new_tokens_append)
  have "length new = n" if "eos_token_id S \<notin> set new"
  proof (rule ccontr)
    assume "length new \<noteq> n"
    then have "new \<noteq> [] \<and> last new = eos_token_id S" using new(2,3) by simp
    then have "eos_token_id S \<in> set new" using last_in_set by metis
    with that show False by simp
  qed
  with run new(2) nt show ?thesis by auto
qed

theorem budget_bounds_loop_witness:
  "decode_loop scripted_env 2 scripted_start = Inr scripted_after_2
   \<and> length (new_tokens scripted_start scripted_after_2) = 2
   \<and> eos_token_id scripted_env \<notin> set (new_tokens scripted_start scripted_after_2)"
proof -
  have h2: "do_sample scripted_env \<longrightarrow> temperature scripted_env \<noteq> 0 \<and> 0 \<le> top_p scripted_env"
    by (simp add: scripted_env_def)
  have h3: "input_ids scripted_start \<noteq> []" by (simp add: scripted_start_eq)
  have nt: "new_tokens scripted_start scripted_after_2 = [2, 1]"
    by (simp add: new_tokens_def scripted_start_eq scripted_after_2_def)
  have e: "eos_token_id scripted_env = 3" by (simp add: scripted_env_def)
  from budget_bounds_loop [OF model_ok_scripted h2 h3, of 2] obtain st' where
    "decode_loop scripted_env 2 scripted_start = Inr st'"
    "eos_token_id scripted_env \<notin> set (new_tokens scripted_start st') \<longrightarrow>
       length (new_tokens scripted_start st') = 2"
    by blast
  then show ?thesis by (simp add: scripted_run_2 nt e)
qed

text \<open>
  The same for the whole call, when the budget is positive (with a budget of zero the
  concatenation fails, see C9).
\<close>

lemma budget_bounds_inference:
  assumes "model_ok S"
    and "do_sample S \<longrightarrow> temperature S \<noteq> 0 \<and> 0 \<le> top_p S"
    and "input_ids (get_model_inputs S prompt image_file_path) \<noteq> []"
    and "0 < max_tokens_to_generate"
  shows "\<exists>tokens text.
           test_inference S prompt image_file_path max_tokens_to_generate g = Inr (tokens, text)
           \<and> length tokens \<le> nat max_tokens_to_generate
           \<and> (eos_token_id S \<notin> set tokens \<longrightarrow> length tokens = nat max_tokens_to_generate)"
proof -
  let ?st0 = "initial_state S prompt image_file_path g"
  let ?n = "nat max_tokens_to_generate"
  have ids: "input_ids ?st0 \<noteq> []" using assms(3) by (simp add: initial_state_def Let_def)
  have g0: "generated_tokens ?st0 = []" by (simp add: initial_state_def Let_def)
  from decode_loop_total[OF assms(1,2) ids] obtain st' where run: "decode_loop S ?n ?st0 = Inr st'"
    by blast
  from decode_loop_shape[OF run] g0 obtain new where
    new: "generated_tokens st' = new" "length new \<le> ?n"
      "length new < ?n \<longrightarrow> new \<noteq> [] \<and> last new = eos_token_id S"
    by auto
  have ne: "new \<noteq> []" using new(2,3) assms(4) by (cases "length new < ?n") auto
  have full: "length new = ?n" if "eos_token_id S \<notin> set new"
  proof (rule ccontr)
    assume "length new \<noteq> ?n"
    then have "new \<noteq> [] \<and> last new = eos_token_id S" using new(2,3) by simp
    then have "eos_token_id S \<in> set new" using last_in_set by metis
    with that show False by simp
  qed
  have "test_inference S prompt image_file_path max_tokens_to_generate g
          = Inr (new, prompt @ tokenizer_decode S new)"
    using run new(1) ne by (simp add: test_inference_def torch_cat_def)
  with new(2) full show ?thesis by blast
qed

end
